theory Spec2Isabelle
  imports Main
begin

section \<open>Data of the zookeeper watcher (database/registry/zookeeper/watch.go)\<close>

text \<open>
  The notification types and session states of the zookeeper client library, as the
  watcher's code names them (\<^verbatim>\<open>zk.EventNodeDeleted\<close>, \<^verbatim>\<open>zk.StateConnected\<close>, ...).
\<close>

datatype EventType =
    EventNodeCreated
  | EventNodeDeleted
  | EventNodeDataChanged
  | EventNodeChildrenChanged
  | EventSession
  | EventNotWatching

datatype State =
    StateUnknown
  | StateDisconnected
  | StateConnecting
  | StateAuthFailed
  | StateConnectedReadOnly
  | StateSaslAuthenticated
  | StateExpired
  | StateConnected
  | StateHasSession

text \<open>
  The service record package (\<^verbatim>\<open>gxregistry\<close>) is used by the watcher only through
  \<^verbatim>\<open>DecodeService\<close>, \<^verbatim>\<open>ServiceAttr.UnmarshalPath\<close>, \<^verbatim>\<open>ServiceAttr.Filter\<close> and the field
  \<^verbatim>\<open>Service.Attr\<close>. Attributes and the rest of a service are kept as opaque strings;
  the three functions are parameters of the model (record \<open>deps\<close> below).
\<close>

type_synonym ServiceAttr = string
type_synonym bytes = string

record Service =
  Attr :: ServiceAttr
  Nodes :: string

datatype ServiceURLEvent = ServiceURLAdd | ServiceURLDel

record EventResult =
  Action :: ServiceURLEvent
  Service :: Service

text \<open>A Go \<^verbatim>\<open>error\<close> is its message; \<^verbatim>\<open>nil\<close> is \<open>None\<close>.\<close>

type_synonym error = string

record event =
  res :: "EventResult option"
  err :: "error option"

definition MAX_TIMES :: int where
  "MAX_TIMES = 15"

definition Wactch_Event_Channel_Size :: nat where
  "Wactch_Event_Channel_Size = 32"

text \<open>
  What the watcher is configured with (\<^verbatim>\<open>w.opts.Root\<close>, \<^verbatim>\<open>w.opts.Filter\<close>) and the
  functions of the record package it calls. \<open>UnmarshalPath\<close> and \<open>DecodeService\<close> give
  \<open>None\<close> where the Go functions return a non-nil error.
\<close>

record deps =
  Root :: string
  Filter :: "ServiceAttr \<Rightarrow> bool"
  UnmarshalPath :: "string \<Rightarrow> ServiceAttr option"
  DecodeService :: "bytes \<Rightarrow> Service option"
  REGISTRY_CONN_DELAY :: int

text \<open>
  The synchronous calls of the coordination client, as answered during one run of a
  handler: \<open>None\<close> is a non-nil error.
\<close>

record client =
  GetChildren :: "string \<Rightarrow> string list option"
  Get :: "string \<Rightarrow> bytes option"

text \<open>
  \<^verbatim>\<open>path.Join\<close> of the Go library, for two elements: empty elements are dropped, the
  others are joined with a slash, and the result goes through \<^verbatim>\<open>path.Clean\<close>; two empty
  elements give the empty string. \<^verbatim>\<open>path.Clean\<close> reads the path as a list of elements
  between slashes, drops empty elements and \<^verbatim>\<open>.\<close>, lets \<^verbatim>\<open>..\<close> take away the element
  before it (at the start of a rooted path \<^verbatim>\<open>..\<close> is dropped, at the start of a relative
  one it stays), and gives \<^verbatim>\<open>.\<close> for an empty result.
\<close>

fun split_path :: "string \<Rightarrow> string \<Rightarrow> string list" where
  "split_path cur [] = [cur]"
| "split_path cur (c # cs) =
     (if c = CHR ''/'' then cur # split_path [] cs else split_path (cur @ [c]) cs)"

fun clean_elems :: "bool \<Rightarrow> string list \<Rightarrow> string list \<Rightarrow> string list" where
  "clean_elems rooted out [] = out"
| "clean_elems rooted out (e # es) =
     (if e = [] \<or> e = ''.'' then clean_elems rooted out es
      else if e = ''..''
      then (if out \<noteq> [] \<and> last out \<noteq> ''..'' then clean_elems rooted (butlast out) es
            else if rooted then clean_elems rooted out es
            else clean_elems rooted (out @ [e]) es)
      else clean_elems rooted (out @ [e]) es)"

fun join_slash :: "string list \<Rightarrow> string" where
  "join_slash [] = []"
| "join_slash [e] = e"
| "join_slash (e # es) = e @ ''/'' @ join_slash es"

definition path_Clean :: "string \<Rightarrow> string" where
  "path_Clean p =
     (case p of
        [] \<Rightarrow> ''.''
      | c # cs \<Rightarrow>
          (let rooted = (c = CHR ''/'');
               s = (if rooted then ''/'' else []) @ join_slash (clean_elems rooted [] (split_path [] p))
           in if s = [] then ''.'' else s))"

definition path_Join :: "string \<Rightarrow> string \<Rightarrow> string" where
  "path_Join a b =
     (if a = [] \<and> b = [] then []
      else if a = [] then path_Clean b
      else if b = [] then path_Clean a
      else path_Clean (a @ ''/'' @ b))"

subsection \<open>What a goroutine does, as a list of actions\<close>

text \<open>
  Each goroutine of the watcher is a function from the answers of its environment (a
  script: what each client call returned and which case each \<^verbatim>\<open>select\<close> took) to the
  list of actions it performs on the shared state of the Watcher, in program order.
  \<open>Send p e\<close> is \<^verbatim>\<open>w.events <- e\<close>; the path \<open>p\<close> records which instance node the event
  is about (the \<^verbatim>\<open>newNode\<close>, \<^verbatim>\<open>node\<close> variable at the send). \<open>Park\<close> stands for a
  goroutine that is still inside its loop when the script ends: it has not returned.
\<close>

datatype goroutine =
    GoWatchDir string
  | GoWatchNode string Service

datatype action =
    Send string event
  | Go goroutine
  | WgAdd
  | WgDone
  | Register string
  | RecvZk EventType
  | RecvDone
  | RecvRegDone
  | RecvReconnect
  | RegisterEvent string
  | UnregisterEvent string
  | TimeAfter int
  | CheckClosed bool
  | CloseDone
  | WgWait
  | NotifyStopped
  | NotifyEvent
  | CloseRegistry
  | Park

subsection \<open>watchServiceNode\<close>

text \<open>
  One turn of the loop of \<^verbatim>\<open>watchServiceNode\<close>: \<^verbatim>\<open>ExistW\<close> failed, or it gave a channel
  and the \<^verbatim>\<open>select\<close> took the notification from it, or the \<^verbatim>\<open>select\<close> took \<^verbatim>\<open>w.done\<close>.
\<close>

datatype node_step = ExistWError | Notified EventType | Stopped

text \<open>
  The \<^verbatim>\<open>switch\<close> on the notification's type: only \<^verbatim>\<open>EventNodeDeleted\<close> returns; the three
  other cases log and leave the \<^verbatim>\<open>switch\<close>, and a type with no case does nothing, so
  the \<^verbatim>\<open>for\<close> loop goes round again. \<open>True\<close> is "return true".
\<close>

fun switch_zkEvent :: "EventType \<Rightarrow> bool" where
  "switch_zkEvent EventNodeDataChanged = False"
| "switch_zkEvent EventNodeCreated = False"
| "switch_zkEvent EventNotWatching = False"
| "switch_zkEvent EventNodeDeleted = True"
| "switch_zkEvent _ = False"

fun watchServiceNode_loop :: "node_step list \<Rightarrow> action list \<times> bool option" where
  "watchServiceNode_loop [] = ([Park], None)"
| "watchServiceNode_loop (ExistWError # _) = ([], Some False)"
| "watchServiceNode_loop (Notified ty # rest) =
     (if switch_zkEvent ty then ([RecvZk ty], Some True)
      else (case watchServiceNode_loop rest of (as, r) \<Rightarrow> (RecvZk ty # as, r)))"
| "watchServiceNode_loop (Stopped # _) = ([RecvDone], Some False)"

text \<open>
  The function itself: \<^verbatim>\<open>w.wg.Add(1)\<close>, the loop, and the deferred \<^verbatim>\<open>w.wg.Done()\<close> when
  it returns. The result is \<open>None\<close> while the function has not returned.
\<close>

definition watchServiceNode :: "node_step list \<Rightarrow> action list \<times> bool option" where
  "watchServiceNode scr =
     (case watchServiceNode_loop scr of
        (as, None) \<Rightarrow> (WgAdd # as, None)
      | (as, Some b) \<Rightarrow> (WgAdd # as @ [WgDone], Some b))"

definition added :: "Service \<Rightarrow> event" where
  "added service = \<lparr>res = Some \<lparr>Action = ServiceURLAdd, Service = service\<rparr>, err = None\<rparr>"

definition removed :: "Service \<Rightarrow> event" where
  "removed service = \<lparr>res = Some \<lparr>Action = ServiceURLDel, Service = service\<rparr>, err = None\<rparr>"

text \<open>
  The goroutine that \<^verbatim>\<open>handleZkNodeEvent\<close> starts for an instance node: it sends the
  delete event when \<^verbatim>\<open>watchServiceNode\<close> returned true.
\<close>

definition node_goroutine :: "string \<Rightarrow> Service \<Rightarrow> node_step list \<Rightarrow> action list" where
  "node_goroutine node service scr =
     (case watchServiceNode scr of
        (as, Some True) \<Rightarrow> as @ [Send node (removed service)]
      | (as, _) \<Rightarrow> as)"

subsection \<open>contains, handleZkPathEvent, handleZkNodeEvent\<close>

primrec contains :: "string list \<Rightarrow> string \<Rightarrow> bool" where
  "contains [] e = False"
| "contains (a # s) e = (if a = e then True else contains s e)"

text \<open>
  The \<^verbatim>\<open>for\<close> loop of \<^verbatim>\<open>handleZkPathEvent\<close> over \<^verbatim>\<open>newChildren\<close>: a child that is not
  known yet, whose name parses and passes the filter, gets a goroutine running
  \<^verbatim>\<open>watchDir\<close> on its path.
\<close>

fun handleZkPathEvent_loop :: "deps \<Rightarrow> string \<Rightarrow> string list \<Rightarrow> string list \<Rightarrow> action list" where
  "handleZkPathEvent_loop d zkRoot children [] = []"
| "handleZkPathEvent_loop d zkRoot children (n # ns) =
     (if contains children n then handleZkPathEvent_loop d zkRoot children ns
      else (case UnmarshalPath d n of
              None \<Rightarrow> handleZkPathEvent_loop d zkRoot children ns
            | Some attr \<Rightarrow>
                if \<not> Filter d attr then handleZkPathEvent_loop d zkRoot children ns
                else Go (GoWatchDir (path_Join zkRoot n))
                       # handleZkPathEvent_loop d zkRoot children ns))"

definition handleZkPathEvent :: "deps \<Rightarrow> client \<Rightarrow> string \<Rightarrow> string list \<Rightarrow> action list" where
  "handleZkPathEvent d c zkRoot children =
     (case GetChildren c zkRoot of
        None \<Rightarrow> []
      | Some newChildren \<Rightarrow> handleZkPathEvent_loop d zkRoot children newChildren)"

text \<open>
  The \<^verbatim>\<open>for\<close> loop of \<^verbatim>\<open>handleZkNodeEvent\<close>: a child that is not known yet, whose data
  can be read and decoded and whose attributes pass the filter, is sent as an add event
  on \<^verbatim>\<open>w.events\<close>; after the send, a goroutine is started that watches the node.
  (\<^verbatim>\<open>service.Attr\<close> is taken to be non-nil in a decoded service.)
\<close>

fun handleZkNodeEvent_loop :: "deps \<Rightarrow> client \<Rightarrow> string \<Rightarrow> string list \<Rightarrow> string list \<Rightarrow> action list" where
  "handleZkNodeEvent_loop d c zkPath children [] = []"
| "handleZkNodeEvent_loop d c zkPath children (n # ns) =
     (if contains children n then handleZkNodeEvent_loop d c zkPath children ns
      else (case Get c (path_Join zkPath n) of
              None \<Rightarrow> handleZkNodeEvent_loop d c zkPath children ns
            | Some zkData \<Rightarrow>
                (case DecodeService d zkData of
                   None \<Rightarrow> handleZkNodeEvent_loop d c zkPath children ns
                 | Some service \<Rightarrow>
                     if \<not> Filter d (Attr service)
                     then handleZkNodeEvent_loop d c zkPath children ns
                     else Send (path_Join zkPath n) (added service)
                            # Go (GoWatchNode (path_Join zkPath n) service)
                            # handleZkNodeEvent_loop d c zkPath children ns)))"

definition handleZkNodeEvent :: "deps \<Rightarrow> client \<Rightarrow> string \<Rightarrow> string list \<Rightarrow> action list" where
  "handleZkNodeEvent d c zkPath children =
     (case GetChildren c zkPath of
        None \<Rightarrow> []
      | Some newChildren \<Rightarrow> handleZkNodeEvent_loop d c zkPath children newChildren)"

subsection \<open>watchDir\<close>

text \<open>
  One turn of the \<^verbatim>\<open>for\<close> loop of \<^verbatim>\<open>watchDir\<close>, as the environment answers it.
  \<open>WatchFail\<close>: \<^verbatim>\<open>GetChildrenW\<close> returned an error, and the \<^verbatim>\<open>select\<close> that follows took
  the timer, \<^verbatim>\<open>w.done\<close>, or the reconnect channel \<^verbatim>\<open>event\<close> (with the client's answers
  to the handler that runs then). \<open>WatchOk children\<close>: \<^verbatim>\<open>GetChildrenW\<close> returned
  \<open>children\<close>, and the second \<^verbatim>\<open>select\<close> took a notification (its type, its path, and
  the client's answers to the handler), or \<^verbatim>\<open>w.reg.done\<close>, or nothing ever came.
\<close>

datatype backoff_outcome = Timeout | BackoffStopped | Reconnect client

datatype watch_outcome = ChildEvent EventType string client | RegistryDone | Unnotified

datatype dir_step = WatchFail backoff_outcome | WatchOk "string list" watch_outcome

datatype flow = Continue int | Return | Waiting

text \<open>
  The failure counter after a failed \<^verbatim>\<open>GetChildrenW\<close>: \<^verbatim>\<open>failTimes++\<close>, then the cap.
\<close>

definition bump_failTimes :: "int \<Rightarrow> int" where
  "bump_failTimes failTimes =
     (if MAX_TIMES \<le> failTimes + 1 then MAX_TIMES else failTimes + 1)"

text \<open>
  The body of the loop. The draining of the local channel \<^verbatim>\<open>event\<close> before it is
  registered touches nothing shared and is left out. \<open>TimeAfter n\<close> is the timer of
  \<open>n\<close> seconds, \<^verbatim>\<open>failTimes * REGISTRY_CONN_DELAY\<close>.
\<close>

definition watchDir_turn :: "deps \<Rightarrow> string \<Rightarrow> int \<Rightarrow> dir_step \<Rightarrow> action list \<times> flow" where
  "watchDir_turn d zkPath failTimes st =
     (case st of
        WatchFail out \<Rightarrow>
          (let failTimes' = bump_failTimes failTimes in
           case out of
             Timeout \<Rightarrow>
               ([RegisterEvent zkPath, TimeAfter (failTimes' * REGISTRY_CONN_DELAY d),
                 UnregisterEvent zkPath], Continue failTimes')
           | BackoffStopped \<Rightarrow>
               ([RegisterEvent zkPath, RecvDone, UnregisterEvent zkPath], Return)
           | Reconnect c \<Rightarrow>
               ([RegisterEvent zkPath, RecvReconnect, UnregisterEvent zkPath]
                  @ handleZkNodeEvent d c zkPath [], Continue failTimes'))
      | WatchOk children out \<Rightarrow>
          (case out of
             ChildEvent ty evPath c \<Rightarrow>
               if ty \<noteq> EventNodeChildrenChanged then ([RecvZk ty], Continue failTimes)
               else if zkPath = Root d
               then (RecvZk ty # handleZkPathEvent d c evPath children, Continue failTimes)
               else (RecvZk ty
                       # handleZkNodeEvent d c evPath (if failTimes = 0 then [] else children),
                     Continue 0)
           | RegistryDone \<Rightarrow> ([RecvRegDone], Return)
           | Unnotified \<Rightarrow> ([Park], Waiting)))"

text \<open>The loop; the second component says whether \<^verbatim>\<open>watchDir\<close> returned.\<close>

fun watchDir_loop :: "deps \<Rightarrow> string \<Rightarrow> int \<Rightarrow> dir_step list \<Rightarrow> action list \<times> bool" where
  "watchDir_loop d zkPath failTimes [] = ([Park], False)"
| "watchDir_loop d zkPath failTimes (st # sts) =
     (case watchDir_turn d zkPath failTimes st of
        (as, Continue failTimes') \<Rightarrow>
          (case watchDir_loop d zkPath failTimes' sts of (bs, r) \<Rightarrow> (as @ bs, r))
      | (as, Return) \<Rightarrow> (as, True)
      | (as, Waiting) \<Rightarrow> (as, False))"

text \<open>
  The failure counter at the start of each turn, for reading the loop's state.
\<close>

fun failTimes_after :: "deps \<Rightarrow> string \<Rightarrow> int \<Rightarrow> dir_step list \<Rightarrow> int option" where
  "failTimes_after d zkPath failTimes [] = Some failTimes"
| "failTimes_after d zkPath failTimes (st # sts) =
     (case snd (watchDir_turn d zkPath failTimes st) of
        Continue failTimes' \<Rightarrow> failTimes_after d zkPath failTimes' sts
      | _ \<Rightarrow> None)"

text \<open>
  The head of \<^verbatim>\<open>watchDir\<close>, under \<^verbatim>\<open>w.Lock()\<close>: look the path up in \<^verbatim>\<open>w.pathSet\<close> and
  append it when it is not there. The result is \<^verbatim>\<open>flag\<close> and the new \<^verbatim>\<open>w.pathSet\<close>.
\<close>

definition watchDir_register :: "string list \<Rightarrow> string \<Rightarrow> bool \<times> string list" where
  "watchDir_register pathSet zkPath =
     (let flag = contains pathSet zkPath
      in (flag, if \<not> flag then pathSet @ [zkPath] else pathSet))"

text \<open>
  What a goroutine running \<^verbatim>\<open>watchDir\<close> does. \<open>Register\<close> is the locked head; when it
  finds the path (\<^verbatim>\<open>flag\<close>), the function returns there and the actions after it are
  not performed (see \<open>perform\<close>). Otherwise: \<^verbatim>\<open>w.wg.Add(1)\<close>, the loop starting with
  \<^verbatim>\<open>failTimes = 1\<close>, and the deferred \<^verbatim>\<open>w.wg.Done()\<close> on return (the deferred function
  also closes the local channel and takes and releases the lock, with nothing between).
\<close>

definition watchDir_goroutine :: "deps \<Rightarrow> string \<Rightarrow> dir_step list \<Rightarrow> action list" where
  "watchDir_goroutine d zkPath scr =
     (case watchDir_loop d zkPath 1 scr of
        (as, returned) \<Rightarrow> Register zkPath # WgAdd # as @ (if returned then [WgDone] else []))"

subsection \<open>watchService\<close>

fun watchService_loop :: "deps \<Rightarrow> string \<Rightarrow> string list \<Rightarrow> action list" where
  "watchService_loop d zkPath [] = []"
| "watchService_loop d zkPath (c # cs) =
     (case UnmarshalPath d c of
        None \<Rightarrow> watchService_loop d zkPath cs
      | Some attr \<Rightarrow>
          if \<not> Filter d attr then watchService_loop d zkPath cs
          else Go (GoWatchDir (path_Join zkPath c)) # watchService_loop d zkPath cs)"

text \<open>
  \<^verbatim>\<open>watchService\<close>, the goroutine that \<^verbatim>\<open>NewWatcher\<close> starts. When \<^verbatim>\<open>GetChildren\<close> fails,
  \<^verbatim>\<open>children\<close> is set to nil and nothing is sent (the send of the error is commented
  out in the source). The call \<^verbatim>\<open>DeleteZkPath\<close> acts on the coordination service only.
\<close>

definition watchService :: "deps \<Rightarrow> client \<Rightarrow> action list" where
  "watchService d c =
     (let zkPath = Root d in
      if length zkPath = 0 then []
      else (let children = (case GetChildren c zkPath of None \<Rightarrow> [] | Some cs \<Rightarrow> cs)
            in watchService_loop d zkPath children @ [Go (GoWatchDir zkPath)]))"

subsection \<open>The Watcher and its public methods\<close>

text \<open>
  The shared state of a Watcher: the buffered channel \<^verbatim>\<open>events\<close> (oldest first, capacity
  \<open>Wactch_Event_Channel_Size\<close>), whether \<^verbatim>\<open>done\<close> has been closed, \<^verbatim>\<open>pathSet\<close>, the counter
  of the wait group \<^verbatim>\<open>wg\<close>, and whether the registry's channel \<^verbatim>\<open>w.reg.done\<close> has been
  closed.
\<close>

record Watcher =
  events :: "event list"
  w_done :: bool
  pathSet :: "string list"
  wg :: int
  reg_done :: bool

text \<open>\<^verbatim>\<open>IsClosed\<close>: a receive from \<^verbatim>\<open>w.done\<close> succeeds exactly when it is closed.\<close>

definition IsClosed :: "Watcher \<Rightarrow> bool" where
  "IsClosed w = (if w_done w then True else False)"


text \<open>
  \<^verbatim>\<open>Notify\<close> is one \<^verbatim>\<open>select\<close> over \<^verbatim>\<open>w.done\<close> and \<^verbatim>\<open>w.events\<close>. Go takes any one of the
  cases that can proceed, and blocks when none can. The list holds every result the call
  can return in state \<open>w\<close>, with the state after it; the empty list is a blocked call.
\<close>

definition watcher_stopped :: error where
  "watcher_stopped = ''watcher stopped''"

definition Notify :: "Watcher \<Rightarrow> ((EventResult option \<times> error option) \<times> Watcher) list" where
  "Notify w =
     (if w_done w then [((None, Some watcher_stopped), w)] else [])
     @ (case events w of
          [] \<Rightarrow> []
        | r # rs \<Rightarrow> [((res r, err r), w\<lparr>events := rs\<rparr>)])"

text \<open>
  The threads that call the public methods. \<^verbatim>\<open>Close\<close> reads \<^verbatim>\<open>IsClosed\<close> (the script
  says what it read), closes \<^verbatim>\<open>w.done\<close> when the answer was false, and waits for the wait
  group. A call of \<^verbatim>\<open>Notify\<close> takes one of its two cases. \<open>CallRegistryClose\<close> is the
  owner of the registry closing \<^verbatim>\<open>w.reg.done\<close>.
\<close>

datatype call = CallClose bool | CallNotifyStopped | CallNotifyEvent | CallRegistryClose

fun call_actions :: "call \<Rightarrow> action list" where
  "call_actions (CallClose closed) =
     CheckClosed closed # (if \<not> closed then [CloseDone] else []) @ [WgWait]"
| "call_actions CallNotifyStopped = [NotifyStopped]"
| "call_actions CallNotifyEvent = [NotifyEvent]"
| "call_actions CallRegistryClose = [CloseRegistry]"

definition caller :: "call list \<Rightarrow> action list" where
  "caller calls = concat (map call_actions calls)"

subsection \<open>Running the goroutines together\<close>

text \<open>
  A configuration: the shared state, for each goroutine the actions it has still to
  perform (the empty list for one that has returned), and the history of all sends on
  \<^verbatim>\<open>w.events\<close> in the order they were queued.
\<close>

record config =
  watcher :: Watcher
  tasks :: "action list list"
  sent :: "(string \<times> event) list"

datatype script = DirScript "dir_step list" | NodeScript "node_step list" | NoScript

definition proceed :: "config \<Rightarrow> nat \<Rightarrow> action list \<Rightarrow> Watcher \<Rightarrow> config" where
  "proceed cfg i rest w = cfg\<lparr>watcher := w, tasks := (tasks cfg)[i := rest]\<rparr>"

text \<open>
  Goroutine \<open>i\<close> performs its next action \<open>a\<close> and goes on with \<open>rest\<close>. \<open>None\<close>: the action
  cannot be taken in this state (a send on a full channel, a receive from a channel that
  is not closed, \<^verbatim>\<open>wg.Wait()\<close> with a counter that is not zero, a parked goroutine), or it
  panics (closing a closed channel, a negative wait group counter). A \<^verbatim>\<open>go\<close> statement
  appends the new goroutine, whose script the schedule supplies.
\<close>

fun perform :: "deps \<Rightarrow> config \<Rightarrow> nat \<Rightarrow> script \<Rightarrow> action \<Rightarrow> action list \<Rightarrow> config option" where
  "perform d cfg i s (Send p e) rest =
     (let w = watcher cfg in
      if length (events w) < Wactch_Event_Channel_Size
      then Some ((proceed cfg i rest (w\<lparr>events := events w @ [e]\<rparr>))\<lparr>sent := sent cfg @ [(p, e)]\<rparr>)
      else None)"
| "perform d cfg i s (Go (GoWatchDir p)) rest =
     (case s of
        DirScript scr \<Rightarrow>
          Some (cfg\<lparr>tasks := (tasks cfg)[i := rest] @ [watchDir_goroutine d p scr]\<rparr>)
      | _ \<Rightarrow> None)"
| "perform d cfg i s (Go (GoWatchNode node service)) rest =
     (case s of
        NodeScript scr \<Rightarrow>
          Some (cfg\<lparr>tasks := (tasks cfg)[i := rest] @ [node_goroutine node service scr]\<rparr>)
      | _ \<Rightarrow> None)"
| "perform d cfg i s WgAdd rest =
     (let w = watcher cfg in Some (proceed cfg i rest (w\<lparr>wg := wg w + 1\<rparr>)))"
| "perform d cfg i s WgDone rest =
     (let w = watcher cfg in
      if wg w \<le> 0 then None else Some (proceed cfg i rest (w\<lparr>wg := wg w - 1\<rparr>)))"
| "perform d cfg i s (Register p) rest =
     (let w = watcher cfg in
      case watchDir_register (pathSet w) p of
        (True, ps) \<Rightarrow> Some (proceed cfg i [] (w\<lparr>pathSet := ps\<rparr>))
      | (False, ps) \<Rightarrow> Some (proceed cfg i rest (w\<lparr>pathSet := ps\<rparr>)))"
| "perform d cfg i s (RecvZk ty) rest = Some (proceed cfg i rest (watcher cfg))"
| "perform d cfg i s RecvDone rest =
     (if w_done (watcher cfg) then Some (proceed cfg i rest (watcher cfg)) else None)"
| "perform d cfg i s RecvRegDone rest =
     (if reg_done (watcher cfg) then Some (proceed cfg i rest (watcher cfg)) else None)"
| "perform d cfg i s RecvReconnect rest = Some (proceed cfg i rest (watcher cfg))"
| "perform d cfg i s (RegisterEvent p) rest = Some (proceed cfg i rest (watcher cfg))"
| "perform d cfg i s (UnregisterEvent p) rest = Some (proceed cfg i rest (watcher cfg))"
| "perform d cfg i s (TimeAfter n) rest = Some (proceed cfg i rest (watcher cfg))"
| "perform d cfg i s (CheckClosed closed) rest =
     (if closed = IsClosed (watcher cfg) then Some (proceed cfg i rest (watcher cfg)) else None)"
| "perform d cfg i s CloseDone rest =
     (let w = watcher cfg in
      if w_done w then None else Some (proceed cfg i rest (w\<lparr>w_done := True\<rparr>)))"
| "perform d cfg i s WgWait rest =
     (if wg (watcher cfg) = 0 then Some (proceed cfg i rest (watcher cfg)) else None)"
| "perform d cfg i s NotifyStopped rest =
     (if ((None, Some watcher_stopped), watcher cfg) \<in> set (Notify (watcher cfg))
      then Some (proceed cfg i rest (watcher cfg)) else None)"
| "perform d cfg i s NotifyEvent rest =
     (case events (watcher cfg) of
        [] \<Rightarrow> None
      | r # rs \<Rightarrow> Some (proceed cfg i rest ((watcher cfg)\<lparr>events := rs\<rparr>)))"
| "perform d cfg i s CloseRegistry rest =
     (let w = watcher cfg in Some (proceed cfg i rest (w\<lparr>reg_done := True\<rparr>)))"
| "perform d cfg i s Park rest = None"

definition step :: "deps \<Rightarrow> config \<Rightarrow> nat \<times> script \<Rightarrow> config option" where
  "step d cfg x =
     (case x of (i, s) \<Rightarrow>
        if i < length (tasks cfg)
        then (case tasks cfg ! i of [] \<Rightarrow> None | a # rest \<Rightarrow> perform d cfg i s a rest)
        else None)"

text \<open>An execution along a schedule: which goroutine moves next, one action each.\<close>

fun exec :: "deps \<Rightarrow> config \<Rightarrow> (nat \<times> script) list \<Rightarrow> config option" where
  "exec d cfg [] = Some cfg"
| "exec d cfg (x # sched) =
     (case step d cfg x of None \<Rightarrow> None | Some cfg' \<Rightarrow> exec d cfg' sched)"

text \<open>
  \<^verbatim>\<open>NewWatcher\<close> (with a registry of the right type, and \<open>Root d\<close> the root after the
  default has been filled in): the channels are made, nothing is registered, and the
  goroutine \<^verbatim>\<open>watchService\<close> is started. \<open>callers\<close> are the threads of the program that use
  the Watcher.
\<close>

definition NewWatcher :: "deps \<Rightarrow> client \<Rightarrow> call list list \<Rightarrow> config" where
  "NewWatcher d c callers =
     \<lparr>watcher = \<lparr>events = [], w_done = False, pathSet = [], wg = 0, reg_done = False\<rparr>,
      tasks = watchService d c # map caller callers,
      sent = []\<rparr>"

text \<open>The sends among a list of actions.\<close>

fun sends_of :: "action list \<Rightarrow> (string \<times> event) list" where
  "sends_of [] = []"
| "sends_of (Send p e # as) = (p, e) # sends_of as"
| "sends_of (_ # as) = sends_of as"

subsection \<open>Predicates used in the statements\<close>

text \<open>
  A turn of \<^verbatim>\<open>watchServiceNode\<close> after which the loop goes round again: a notification
  of any type but \<^verbatim>\<open>EventNodeDeleted\<close>.
\<close>

definition rearms :: "node_step \<Rightarrow> bool" where
  "rearms st = (case st of Notified ty \<Rightarrow> ty \<noteq> EventNodeDeleted | _ \<Rightarrow> False)"

text \<open>An event with a result and a nil error, and a list of actions that sends only such.\<close>

definition nil_err :: "string \<times> event \<Rightarrow> bool" where
  "nil_err x = (err (snd x) = None \<and> res (snd x) \<noteq> None)"

definition sends_ok :: "action list \<Rightarrow> bool" where
  "sends_ok as = list_all nil_err (sends_of as)"

definition inv_err :: "config \<Rightarrow> bool" where
  "inv_err cfg =
     (list_all sends_ok (tasks cfg) \<and> list_all nil_err (sent cfg)
      \<and> list_all (\<lambda>e. err e = None \<and> res e \<noteq> None) (events (watcher cfg)))"

text \<open>
  \<open>owes n sv as\<close>: going through the actions \<open>as\<close> in order, a delete event for service
  \<open>sv\<close> at node \<open>n\<close>, or the start of the goroutine that can send it, comes before any
  add event for \<open>sv\<close> at \<open>n\<close>.
\<close>

fun owes :: "string \<Rightarrow> Service \<Rightarrow> action list \<Rightarrow> bool" where
  "owes n sv [] = False"
| "owes n sv (Send p e # as) =
     (if p = n \<and> e = added sv then False
      else if p = n \<and> e = removed sv then True
      else owes n sv as)"
| "owes n sv (Go (GoWatchNode p s') # as) = (if p = n \<and> s' = sv then True else owes n sv as)"
| "owes n sv (_ # as) = owes n sv as"

text \<open>In a history of sends, every delete event has the add event of its node before it.\<close>

definition ordered :: "(string \<times> event) list \<Rightarrow> bool" where
  "ordered log =
     (\<forall>j n sv. j < length log \<and> log ! j = (n, removed sv) \<longrightarrow>
        (\<exists>i. i < j \<and> log ! i = (n, added sv)))"

definition inv_order :: "config \<Rightarrow> bool" where
  "inv_order cfg =
     (ordered (sent cfg) \<and>
      (\<forall>t n sv. t \<in> set (tasks cfg) \<and> owes n sv t \<longrightarrow> (n, added sv) \<in> set (sent cfg)))"

subsection \<open>A small namespace to run the model on\<close>

text \<open>
  Root \<^verbatim>\<open>/dubbo\<close> with one service path \<^verbatim>\<open>/dubbo/svc\<close>; every name parses, every record
  decodes and passes the filter; the data of a node is its path.
\<close>

definition example_deps :: deps where
  "example_deps =
     \<lparr>Root = ''/dubbo'', Filter = (\<lambda>attr. True), UnmarshalPath = (\<lambda>n. Some n),
      DecodeService = (\<lambda>zkData. Some \<lparr>Attr = zkData, Nodes = []\<rparr>),
      REGISTRY_CONN_DELAY = 3\<rparr>"

definition example_client :: "string list \<Rightarrow> client" where
  "example_client instances =
     \<lparr>GetChildren = (\<lambda>p. if p = ''/dubbo'' then Some [''svc'']
                          else if p = ''/dubbo/svc'' then Some instances else None),
      Get = (\<lambda>p. Some p)\<rparr>"

definition failing_client :: client where
  "failing_client = \<lparr>GetChildren = (\<lambda>p. None), Get = (\<lambda>p. None)\<rparr>"

text \<open>
  The record that \<open>example_deps\<close> decodes from the data of a node.
\<close>

definition example_service :: "string \<Rightarrow> Service" where
  "example_service node = \<lparr>Attr = node, Nodes = []\<rparr>"

text \<open>
  A run on the small namespace with one caller that calls \<^verbatim>\<open>Close\<close>. Goroutine 0 is
  \<^verbatim>\<open>watchService\<close>, 1 the caller, 2 the loop on \<^verbatim>\<open>/dubbo/svc\<close> that \<^verbatim>\<open>watchService\<close> starts.
  First \<^verbatim>\<open>watchService\<close> executes its \<^verbatim>\<open>go\<close> statement; then the caller runs \<^verbatim>\<open>Close\<close> to its
  end; then the new goroutine runs: it registers its path, adds itself to the wait group,
  gets a children-changed notification (instance \<^verbatim>\<open>i1\<close> has appeared) and sends the add
  event.
\<close>

definition example_schedule :: "(nat \<times> script) list" where
  "example_schedule =
     [(0, DirScript [WatchOk [] (ChildEvent EventNodeChildrenChanged ''/dubbo/svc''
                                    (example_client [''i1'']))]),
      (1, NoScript), (1, NoScript), (1, NoScript),
      (2, NoScript), (2, NoScript), (2, NoScript), (2, NoScript)]"

text \<open>
  A second run. The loop on \<^verbatim>\<open>/dubbo/svc\<close> (goroutine 2) sends the add event for \<^verbatim>\<open>i1\<close>
  and starts its node watch (goroutine 3), which sees the node deleted and returns true
  from \<^verbatim>\<open>watchServiceNode\<close>. The caller closes the registry, the loop leaves, and the
  caller runs \<^verbatim>\<open>Close\<close> to its end. Last, goroutine 3 sends the delete event.
\<close>

definition example_schedule2 :: "(nat \<times> script) list" where
  "example_schedule2 =
     [(0, DirScript [WatchOk [] (ChildEvent EventNodeChildrenChanged ''/dubbo/svc''
                                    (example_client [''i1''])),
                     WatchOk [''i1''] RegistryDone]),
      (2, NoScript), (2, NoScript), (2, NoScript), (2, NoScript),
      (2, NodeScript [Notified EventNodeDeleted]),
      (3, NoScript), (3, NoScript), (3, NoScript),
      (1, NoScript), (2, NoScript), (2, NoScript),
      (1, NoScript), (1, NoScript), (1, NoScript),
      (3, NoScript)]"

text \<open>
  A third run, without callers: \<^verbatim>\<open>watchService\<close> starts the loop on \<^verbatim>\<open>/dubbo/svc\<close>
  (goroutine 1) and on the root (goroutine 2); both register; the root loop is notified
  of a change, finds the child \<^verbatim>\<open>svc\<close> new (its known set is empty) and starts a second
  goroutine on \<^verbatim>\<open>/dubbo/svc\<close> (goroutine 3).
\<close>

definition example_schedule3 :: "(nat \<times> script) list" where
  "example_schedule3 =
     [(0, DirScript []),
      (0, DirScript [WatchOk [] (ChildEvent EventNodeChildrenChanged ''/dubbo''
                                    (example_client []))]),
      (1, NoScript),
      (2, NoScript), (2, NoScript), (2, NoScript),
      (2, DirScript [])]"

text \<open>
  The loops entered along a run: \<open>entered cfg i\<close> is the path of goroutine \<open>i\<close> when its
  next action is the locked head of \<^verbatim>\<open>watchDir\<close> and the path is not registered yet, so
  that the goroutine goes on into the loop; \<open>loops_entered\<close> collects these paths over
  the steps of a schedule.
\<close>

fun entered :: "config \<Rightarrow> nat \<Rightarrow> string list" where
  "entered cfg i =
     (case tasks cfg ! i of
        Register p # rest \<Rightarrow>
          if fst (watchDir_register (pathSet (watcher cfg)) p) then [] else [p]
      | _ \<Rightarrow> [])"

fun loops_entered :: "deps \<Rightarrow> config \<Rightarrow> (nat \<times> script) list \<Rightarrow> string list" where
  "loops_entered d cfg [] = []"
| "loops_entered d cfg (x # sched) =
     (case step d cfg x of
        None \<Rightarrow> []
      | Some cfg' \<Rightarrow> entered cfg (fst x) @ loops_entered d cfg' sched)"


section \<open>Properties\<close>

subsection \<open>The actions of each goroutine\<close>

lemma sends_of_append: "sends_of (as @ bs) = sends_of as @ sends_of bs"
  by (induction as rule: sends_of.induct) simp_all

lemma sends_ok_append: "sends_ok (as @ bs) = (sends_ok as \<and> sends_ok bs)"
  by (simp add: sends_ok_def sends_of_append)

lemma sends_ok_Nil: "sends_ok []"
  by (simp add: sends_ok_def)

lemma sends_ok_tl: "sends_ok (a # as) \<Longrightarrow> sends_ok as"
  by (cases a) (simp_all add: sends_ok_def)

lemma sends_ok_Send: "sends_ok (Send p e # as) \<Longrightarrow> err e = None \<and> res e \<noteq> None"
  by (simp add: sends_ok_def nil_err_def)

lemma watchServiceNode_loop_sends: "sends_of (fst (watchServiceNode_loop scr)) = []"
  by (induction scr rule: watchServiceNode_loop.induct) (simp_all add: case_prod_beta)

lemma watchServiceNode_sends: "sends_of (fst (watchServiceNode scr)) = []"
  using watchServiceNode_loop_sends [of scr]
  by (cases "watchServiceNode_loop scr"; cases "snd (watchServiceNode_loop scr)")
     (simp_all add: watchServiceNode_def sends_of_append)

lemma node_goroutine_sends:
  "sends_of (node_goroutine node service scr) = [] \<or>
   sends_of (node_goroutine node service scr) = [(node, removed service)]"
proof -
  obtain as r where w: "watchServiceNode scr = (as, r)" by (cases "watchServiceNode scr")
  with watchServiceNode_sends [of scr] have s: "sends_of as = []" by simp
  show ?thesis using w s
    by (cases r) (auto simp: node_goroutine_def sends_of_append split: bool.splits)
qed

lemma sends_ok_node_goroutine: "sends_ok (node_goroutine node service scr)"
  using node_goroutine_sends [of node service scr]
  by (auto simp: sends_ok_def nil_err_def removed_def)

lemma sends_ok_handleZkNodeEvent_loop: "sends_ok (handleZkNodeEvent_loop d c p ch ns)"
  by (induction ns) (simp_all add: sends_ok_def nil_err_def added_def split: option.splits)

lemma sends_ok_handleZkNodeEvent: "sends_ok (handleZkNodeEvent d c p ch)"
  by (simp add: handleZkNodeEvent_def sends_ok_handleZkNodeEvent_loop sends_ok_Nil split: option.splits)

lemma sends_handleZkPathEvent_loop: "sends_of (handleZkPathEvent_loop d p ch ns) = []"
  by (induction ns) (simp_all split: option.splits)

lemma sends_ok_handleZkPathEvent: "sends_ok (handleZkPathEvent d c p ch)"
  by (simp add: handleZkPathEvent_def sends_ok_def sends_handleZkPathEvent_loop split: option.splits)

lemma sends_ok_watchDir_turn: "sends_ok (fst (watchDir_turn d p ft st))"
proof (cases st)
  case (WatchFail out)
  then show ?thesis
    by (cases out)
       (simp_all add: watchDir_turn_def Let_def sends_ok_def[of "_ # _"] sends_ok_handleZkNodeEvent[unfolded sends_ok_def])
next
  case (WatchOk children out)
  then show ?thesis
    by (cases out)
       (simp_all add: watchDir_turn_def sends_ok_def[of "_ # _"] sends_ok_def[of "[]"]
          sends_ok_handleZkNodeEvent[unfolded sends_ok_def] sends_ok_handleZkPathEvent[unfolded sends_ok_def])
qed

lemma sends_ok_watchDir_loop: "sends_ok (fst (watchDir_loop d p ft scr))"
proof (induction scr arbitrary: ft)
  case Nil
  then show ?case by (simp add: sends_ok_def)
next
  case (Cons st sts)
  obtain as fl where t: "watchDir_turn d p ft st = (as, fl)" by (cases "watchDir_turn d p ft st")
  with sends_ok_watchDir_turn [of d p ft st] have a: "sends_ok as" by simp
  show ?case using t a Cons.IH
    by (cases fl) (simp_all add: case_prod_beta sends_ok_append)
qed

lemma sends_ok_watchDir_goroutine: "sends_ok (watchDir_goroutine d p scr)"
proof -
  obtain as r where l: "watchDir_loop d p 1 scr = (as, r)" by (cases "watchDir_loop d p 1 scr")
  with sends_ok_watchDir_loop [of d p 1 scr] have "sends_ok as" by simp
  then show ?thesis using l
    by (simp add: watchDir_goroutine_def sends_ok_def sends_of_append)
qed

lemma sends_watchService_loop: "sends_of (watchService_loop d p cs) = []"
  by (induction cs) (simp_all split: option.splits)

lemma sends_watchService: "sends_of (watchService d c) = []"
  by (simp add: watchService_def Let_def sends_of_append sends_watchService_loop)

lemma sends_call_actions: "sends_of (call_actions x) = []"
  by (cases x) simp_all

lemma sends_caller: "sends_of (caller cs) = []"
  by (induction cs) (simp_all add: caller_def sends_of_append sends_call_actions)

lemma list_all_update: "list_all P xs \<Longrightarrow> P r \<Longrightarrow> list_all P (xs[i := r])"
  by (induction xs arbitrary: i) (auto split: nat.splits)

lemma list_all_nth: "list_all P xs \<Longrightarrow> i < length xs \<Longrightarrow> P (xs ! i)"
  by (simp add: list_all_length)

lemma perform_inv_err:
  assumes "perform d cfg i s a rest = Some cfg'" "inv_err cfg" "sends_ok (a # rest)"
  shows "inv_err cfg'"
proof -
  have r: "sends_ok rest" using assms(3) by (rule sends_ok_tl)
  show ?thesis
  proof (cases a)
    case (Send p e)
    with assms r sends_ok_Send[of p e rest] show ?thesis
      by (auto simp: inv_err_def proceed_def Let_def list_all_update nil_err_def split: if_splits)
  next
    case (Go g)
    with assms r show ?thesis
      by (cases g; cases s)
         (auto simp: inv_err_def list_all_update sends_ok_watchDir_goroutine sends_ok_node_goroutine)
  next
    case (Register p)
    with assms r show ?thesis
      by (auto simp: inv_err_def proceed_def Let_def list_all_update sends_ok_Nil watchDir_register_def split: if_splits)
  next
    case NotifyEvent
    with assms r show ?thesis
      by (auto simp: inv_err_def proceed_def list_all_update split: list.splits)
  qed (use assms r in \<open>auto simp: inv_err_def proceed_def Let_def list_all_update split: if_splits\<close>)
qed

lemma step_inv_err: "step d cfg x = Some cfg' \<Longrightarrow> inv_err cfg \<Longrightarrow> inv_err cfg'"
proof -
  assume st: "step d cfg x = Some cfg'" and inv: "inv_err cfg"
  obtain i s where x: "x = (i, s)" by (cases x)
  from st x obtain a rest where i: "i < length (tasks cfg)" and t: "tasks cfg ! i = a # rest"
    and p: "perform d cfg i s a rest = Some cfg'"
    by (auto simp: step_def split: if_splits list.splits)
  from inv i t have "sends_ok (a # rest)"
    using list_all_nth [of sends_ok "tasks cfg" i] by (simp add: inv_err_def)
  with p inv show ?thesis by (rule perform_inv_err)
qed

lemma exec_invariant:
  assumes "exec d cfg sched = Some cfg'" "P cfg"
    and "\<And>c x c'. P c \<Longrightarrow> step d c x = Some c' \<Longrightarrow> P c'"
  shows "P cfg'"
  using assms(1,2)
proof (induction sched arbitrary: cfg)
  case Nil
  then show ?case by simp
next
  case (Cons x sched)
  then show ?case by (auto split: option.splits intro: assms(3))
qed

lemma inv_err_NewWatcher: "inv_err (NewWatcher d c callers)"
  by (simp add: inv_err_def NewWatcher_def sends_ok_def sends_watchService sends_caller list_all_iff)

lemma added_neq_removed: "added sv \<noteq> removed sv'"
  by (simp add: added_def removed_def)

lemma removed_inject: "(removed a = removed b) = (a = b)"
  by (simp add: removed_def)

lemma added_inject: "(added a = added b) = (a = b)"
  by (simp add: added_def)

lemma owes_append: "owes n sv (as @ bs) \<Longrightarrow> owes n sv as \<or> owes n sv bs"
  by (induction n sv as rule: owes.induct) (auto split: if_splits)

lemma owes_no_sends_go:
  "sends_of as = [] \<Longrightarrow> \<forall>p s'. Go (GoWatchNode p s') \<notin> set as \<Longrightarrow> \<not> owes n sv as"
  by (induction n sv as rule: owes.induct) auto

lemma not_owes_handleZkNodeEvent_loop: "\<not> owes n sv (handleZkNodeEvent_loop d c p ch ns)"
  by (induction ns) (auto simp: added_neq_removed added_inject split: option.splits)

lemma not_owes_handleZkNodeEvent: "\<not> owes n sv (handleZkNodeEvent d c p ch)"
  by (simp add: handleZkNodeEvent_def not_owes_handleZkNodeEvent_loop split: option.splits)

lemma not_owes_handleZkPathEvent_loop: "\<not> owes n sv (handleZkPathEvent_loop d p ch ns)"
  by (induction ns) (auto split: option.splits)

lemma not_owes_handleZkPathEvent: "\<not> owes n sv (handleZkPathEvent d c p ch)"
  by (simp add: handleZkPathEvent_def not_owes_handleZkPathEvent_loop split: option.splits)

lemma not_owes_watchDir_turn: "\<not> owes n sv (fst (watchDir_turn d p ft st))"
proof (cases st)
  case (WatchFail out)
  then show ?thesis
    by (cases out) (simp_all add: watchDir_turn_def Let_def not_owes_handleZkNodeEvent)
next
  case (WatchOk children out)
  then show ?thesis
    by (cases out)
       (simp_all add: watchDir_turn_def not_owes_handleZkNodeEvent not_owes_handleZkPathEvent)
qed

lemma not_owes_watchDir_loop: "\<not> owes n sv (fst (watchDir_loop d p ft scr))"
proof (induction scr arbitrary: ft)
  case Nil
  then show ?case by simp
next
  case (Cons st sts)
  obtain as fl where t: "watchDir_turn d p ft st = (as, fl)" by (cases "watchDir_turn d p ft st")
  with not_owes_watchDir_turn [of n sv d p ft st] have a: "\<not> owes n sv as" by simp
  show ?case using t a Cons.IH
    by (cases fl) (auto simp: case_prod_beta dest: owes_append)
qed

lemma not_owes_watchDir_goroutine: "\<not> owes n sv (watchDir_goroutine d p scr)"
proof -
  obtain as r where l: "watchDir_loop d p 1 scr = (as, r)" by (cases "watchDir_loop d p 1 scr")
  with not_owes_watchDir_loop [of n sv d p 1 scr] have "\<not> owes n sv as" by simp
  then show ?thesis using l
    by (auto simp: watchDir_goroutine_def dest!: owes_append split: if_splits)
qed

lemma watchServiceNode_loop_go: "Go g \<notin> set (fst (watchServiceNode_loop scr))"
  by (induction scr rule: watchServiceNode_loop.induct) (simp_all add: case_prod_beta)

lemma not_owes_watchServiceNode: "\<not> owes n sv (fst (watchServiceNode scr))"
proof -
  have "sends_of (fst (watchServiceNode scr)) = []" by (rule watchServiceNode_sends)
  moreover have "\<forall>p s'. Go (GoWatchNode p s') \<notin> set (fst (watchServiceNode scr))"
    using watchServiceNode_loop_go [of _ scr]
    by (cases "watchServiceNode_loop scr"; cases "snd (watchServiceNode_loop scr)")
       (auto simp: watchServiceNode_def)
  ultimately show ?thesis by (rule owes_no_sends_go)
qed

lemma owes_node_goroutine: "owes n sv (node_goroutine p s' scr) \<Longrightarrow> n = p \<and> sv = s'"
proof -
  assume o: "owes n sv (node_goroutine p s' scr)"
  obtain as r where w: "watchServiceNode scr = (as, r)" by (cases "watchServiceNode scr")
  with not_owes_watchServiceNode [of n sv scr] have a: "\<not> owes n sv as" by simp
  from o w a show ?thesis
    by (cases r)
       (auto simp: node_goroutine_def removed_inject dest!: owes_append split: bool.splits if_splits)
qed

lemma not_owes_watchService_loop: "\<not> owes n sv (watchService_loop d p cs)"
  by (induction cs) (auto split: option.splits)

lemma not_owes_watchService: "\<not> owes n sv (watchService d c)"
  by (auto simp: watchService_def Let_def not_owes_watchService_loop dest!: owes_append)

lemma not_owes_call_actions: "\<not> owes n sv (call_actions x)"
  by (cases x) simp_all

lemma not_owes_caller: "\<not> owes n sv (caller cs)"
  by (induction cs) (auto simp: caller_def not_owes_call_actions dest!: owes_append)

lemma orderedD:
  assumes "ordered log" "j < length log" "log ! j = (n, removed sv)"
  shows "\<exists>i. i < j \<and> log ! i = (n, added sv)"
proof -
  from assms(1) have "j < length log \<and> log ! j = (n, removed sv) \<longrightarrow>
        (\<exists>i. i < j \<and> log ! i = (n, added sv))"
    unfolding ordered_def by (elim allE)
  with assms(2,3) show ?thesis by simp
qed

lemma ordered_snoc:
  assumes "ordered log" "\<And>n sv. x = (n, removed sv) \<Longrightarrow> (n, added sv) \<in> set log"
  shows "ordered (log @ [x])"
  unfolding ordered_def
proof (intro allI impI)
  fix j n sv
  assume h: "j < length (log @ [x]) \<and> (log @ [x]) ! j = (n, removed sv)"
  show "\<exists>i. i < j \<and> (log @ [x]) ! i = (n, added sv)"
  proof (cases "j < length log")
    case True
    with h have "log ! j = (n, removed sv)" by (simp add: nth_append)
    with assms(1) True obtain i where i: "i < j" "log ! i = (n, added sv)"
      using orderedD by blast
    from i(1) True have "(log @ [x]) ! i = log ! i" by (simp add: nth_append)
    with i show ?thesis by auto
  next
    case False
    with h have j: "j = length log" by simp
    with h have x: "x = (n, removed sv)" by simp
    from assms(2) [OF x] obtain i where i: "i < length log" "log ! i = (n, added sv)"
      unfolding in_set_conv_nth by blast
    then have "(log @ [x]) ! i = (n, added sv)" by (simp add: nth_append)
    with i(1) j show ?thesis by auto
  qed
qed

lemma in_set_updD: "t \<in> set (xs[i := r]) \<Longrightarrow> t = r \<or> t \<in> set xs"
  using set_update_subset_insert [of xs i r] by auto

lemma perform_inv_order:
  assumes p: "perform d cfg i s a rest = Some cfg'" and inv: "inv_order cfg"
    and t: "a # rest \<in> set (tasks cfg)"
  shows "inv_order cfg'"
proof -
  have o: "\<And>n sv. owes n sv (a # rest) \<Longrightarrow> (n, added sv) \<in> set (sent cfg)"
    using inv t by (auto simp: inv_order_def)
  have others: "\<And>t n sv. t \<in> set (tasks cfg) \<Longrightarrow> owes n sv t \<Longrightarrow> (n, added sv) \<in> set (sent cfg)"
    using inv by (auto simp: inv_order_def)
  have ord: "ordered (sent cfg)" using inv by (simp add: inv_order_def)
  show ?thesis
  proof (cases a)
    case (Send q e)
    from p Send have s': "sent cfg' = sent cfg @ [(q, e)]"
      and t': "tasks cfg' = (tasks cfg)[i := rest]"
      by (auto simp: proceed_def Let_def split: if_splits)
    have "ordered (sent cfg')" unfolding s'
    proof (rule ordered_snoc [OF ord])
      fix n sv assume "(q, e) = (n, removed sv)"
      then have "owes n sv (a # rest)" using Send by (simp add: added_neq_removed [symmetric])
      then show "(n, added sv) \<in> set (sent cfg)" by (rule o)
    qed
    moreover have "(n, added sv) \<in> set (sent cfg')" if "t \<in> set (tasks cfg')" "owes n sv t" for t n sv
    proof -
      from that(1) t' have "t = rest \<or> t \<in> set (tasks cfg)" by (auto dest: in_set_updD)
      then show ?thesis
      proof
        assume "t = rest"
        with that(2) have "(q = n \<and> e = added sv) \<or> owes n sv (a # rest)"
          using Send by auto
        then show ?thesis using o s' by auto
      next
        assume "t \<in> set (tasks cfg)"
        with that(2) others s' show ?thesis by auto
      qed
    qed
    ultimately show ?thesis by (auto simp: inv_order_def)
  next
    case (Go g)
    show ?thesis
    proof (cases g)
      case (GoWatchDir q)
      with p Go obtain scr where s': "sent cfg' = sent cfg"
        and t': "tasks cfg' = (tasks cfg)[i := rest] @ [watchDir_goroutine d q scr]"
        by (auto split: script.splits)
      have "(n, added sv) \<in> set (sent cfg')" if "t \<in> set (tasks cfg')" "owes n sv t" for t n sv
      proof -
        from that t' not_owes_watchDir_goroutine have "t = rest \<or> t \<in> set (tasks cfg)"
          by (auto dest: in_set_updD)
        then show ?thesis using that(2) o others s' Go GoWatchDir by auto
      qed
      with ord s' show ?thesis by (auto simp: inv_order_def)
    next
      case (GoWatchNode q s1)
      with p Go obtain scr where s': "sent cfg' = sent cfg"
        and t': "tasks cfg' = (tasks cfg)[i := rest] @ [node_goroutine q s1 scr]"
        by (auto split: script.splits)
      have "(n, added sv) \<in> set (sent cfg')" if "t \<in> set (tasks cfg')" "owes n sv t" for t n sv
      proof -
        from that(1) t' have "t = node_goroutine q s1 scr \<or> t = rest \<or> t \<in> set (tasks cfg)"
          by (auto dest: in_set_updD)
        then show ?thesis
        proof (elim disjE)
          assume "t = node_goroutine q s1 scr"
          with that(2) have "n = q \<and> sv = s1" by (auto dest: owes_node_goroutine)
          then have "owes n sv (a # rest)" using Go GoWatchNode by simp
          then show ?thesis using o s' by simp
        next
          assume "t = rest"
          with that(2) have "owes n sv (a # rest)" using Go GoWatchNode by simp
          then show ?thesis using o s' by simp
        next
          assume "t \<in> set (tasks cfg)"
          with that(2) others s' show ?thesis by auto
        qed
      qed
      with ord s' show ?thesis by (auto simp: inv_order_def)
    qed
  next
    case (Register q)
    with p have s': "sent cfg' = sent cfg"
      and t': "tasks cfg' = (tasks cfg)[i := rest] \<or> tasks cfg' = (tasks cfg)[i := []]"
      by (auto simp: proceed_def Let_def watchDir_register_def split: if_splits)
    have "(n, added sv) \<in> set (sent cfg')" if "t \<in> set (tasks cfg')" "owes n sv t" for t n sv
    proof -
      from that(1) t' have "t = [] \<or> t = rest \<or> t \<in> set (tasks cfg)"
        by (auto dest: in_set_updD)
      then show ?thesis using that(2) o [of n sv] others s' Register by auto
    qed
    with ord s' show ?thesis by (auto simp: inv_order_def)
  qed (use p o others ord in
        \<open>auto simp: inv_order_def proceed_def Let_def split: if_splits list.splits dest!: in_set_updD\<close>)
qed

lemma step_inv_order: "step d cfg x = Some cfg' \<Longrightarrow> inv_order cfg \<Longrightarrow> inv_order cfg'"
proof -
  assume st: "step d cfg x = Some cfg'" and inv: "inv_order cfg"
  obtain i s where x: "x = (i, s)" by (cases x)
  from st x obtain a rest where i: "i < length (tasks cfg)" and t: "tasks cfg ! i = a # rest"
    and p: "perform d cfg i s a rest = Some cfg'"
    by (auto simp: step_def split: if_splits list.splits)
  from i t have "a # rest \<in> set (tasks cfg)" by (metis nth_mem)
  with p inv show ?thesis by (rule perform_inv_order)
qed

lemma inv_order_NewWatcher: "inv_order (NewWatcher d c callers)"
  by (auto simp: inv_order_def NewWatcher_def ordered_def not_owes_watchService not_owes_caller)


subsection \<open>watchServiceNode: when it returns, and what\<close>

lemma switch_zkEvent_iff: "switch_zkEvent ty = (ty = EventNodeDeleted)"
  by (cases ty) simp_all

lemma watchServiceNode_loop_result:
  "snd (watchServiceNode_loop scr) =
     (case dropWhile rearms scr of
        [] \<Rightarrow> None
      | ExistWError # _ \<Rightarrow> Some False
      | Notified ty # _ \<Rightarrow> Some True
      | Stopped # _ \<Rightarrow> Some False)"
proof (induction scr rule: watchServiceNode_loop.induct)
  case 1
  then show ?case by simp
next
  case (2 uu)
  then show ?case by (simp add: rearms_def)
next
  case (3 ty rest)
  then show ?case
    by (cases "ty = EventNodeDeleted")
       (simp_all add: rearms_def switch_zkEvent_iff case_prod_beta)
next
  case (4 uv)
  then show ?case by (simp add: rearms_def)
qed

lemma watchServiceNode_snd: "snd (watchServiceNode scr) = snd (watchServiceNode_loop scr)"
  by (cases "watchServiceNode_loop scr"; cases "snd (watchServiceNode_loop scr)")
     (simp_all add: watchServiceNode_def)

subsection \<open>Runs of the model, the path set, the stop channel, the failure counter\<close>

lemma contains_iff: "contains s e = (e \<in> set s)"
  by (induction s) auto

lemma perform_pathSet:
  assumes "perform d cfg i s a rest = Some cfg'"
  shows "pathSet (watcher cfg') = pathSet (watcher cfg)
         \<or> (\<exists>p. a = Register p \<and> p \<notin> set (pathSet (watcher cfg))
                 \<and> pathSet (watcher cfg') = pathSet (watcher cfg) @ [p])"
proof (cases a)
  case (Go g)
  with assms show ?thesis by (cases g; cases s) auto
next
  case (Register p)
  with assms show ?thesis
    by (auto simp: proceed_def Let_def watchDir_register_def contains_iff split: if_splits)
qed (use assms in \<open>auto simp: proceed_def Let_def split: if_splits list.splits\<close>)

lemma step_perform:
  assumes "step d cfg x = Some cfg'"
  obtains i s a rest where "x = (i, s)" "i < length (tasks cfg)" "tasks cfg ! i = a # rest"
    "perform d cfg i s a rest = Some cfg'"
  using assms by (cases x) (auto simp: step_def split: if_splits list.splits)

lemma step_pathSet:
  assumes "step d cfg x = Some cfg'"
  shows "\<exists>ps. pathSet (watcher cfg') = pathSet (watcher cfg) @ ps
           \<and> (distinct (pathSet (watcher cfg)) \<longrightarrow> distinct (pathSet (watcher cfg')))"
proof -
  from assms obtain i s a rest where "perform d cfg i s a rest = Some cfg'"
    by (rule step_perform)
  from perform_pathSet [OF this] show ?thesis by auto
qed

lemma exec_pathSet:
  "exec d cfg sched = Some cfg' \<Longrightarrow> \<exists>ps. pathSet (watcher cfg') = pathSet (watcher cfg) @ ps"
proof (induction sched arbitrary: cfg)
  case Nil
  then show ?case by simp
next
  case (Cons x sched)
  from Cons.prems obtain c1 where s: "step d cfg x = Some c1" and e: "exec d c1 sched = Some cfg'"
    by (auto split: option.splits)
  from step_pathSet [OF s] obtain ps where "pathSet (watcher c1) = pathSet (watcher cfg) @ ps"
    by blast
  moreover from Cons.IH [OF e] obtain qs where "pathSet (watcher cfg') = pathSet (watcher c1) @ qs"
    by blast
  ultimately show ?case by simp
qed

lemma step_distinct:
  "distinct (pathSet (watcher cfg)) \<Longrightarrow> step d cfg x = Some cfg' \<Longrightarrow>
     distinct (pathSet (watcher cfg'))"
  using step_pathSet [of d cfg x cfg'] by blast

lemma distinct_NewWatcher: "distinct (pathSet (watcher (NewWatcher d c callers)))"
  by (simp add: NewWatcher_def)

lemma step_Register:
  assumes "i < length (tasks cfg)" "tasks cfg ! i = Register p # rest"
    "step d cfg (i, s) = Some cfg'"
  shows "if p \<in> set (pathSet (watcher cfg))
         then cfg' = cfg\<lparr>tasks := (tasks cfg)[i := []]\<rparr>
         else cfg' = cfg\<lparr>watcher := (watcher cfg)\<lparr>pathSet := pathSet (watcher cfg) @ [p]\<rparr>,
                         tasks := (tasks cfg)[i := rest]\<rparr>"
  using assms
  by (auto simp: step_def proceed_def Let_def watchDir_register_def contains_iff)




lemma bump_failTimes_min: "bump_failTimes failTimes = min (failTimes + 1) MAX_TIMES"
  by (simp add: bump_failTimes_def min_def)

lemma watchDir_turn_bounds:
  assumes "snd (watchDir_turn d p ft st) = Continue ft'" "0 \<le> ft" "ft \<le> MAX_TIMES"
  shows "0 \<le> ft' \<and> ft' \<le> MAX_TIMES"
proof (cases st)
  case (WatchFail out)
  with assms show ?thesis
    by (cases out) (auto simp: watchDir_turn_def Let_def bump_failTimes_def MAX_TIMES_def split: if_splits)
next
  case (WatchOk children out)
  with assms show ?thesis
    by (cases out) (auto simp: watchDir_turn_def MAX_TIMES_def split: if_splits)
qed

lemma failTimes_after_bounds:
  "failTimes_after d p ft scr = Some ft' \<Longrightarrow> 0 \<le> ft \<Longrightarrow> ft \<le> MAX_TIMES \<Longrightarrow>
     0 \<le> ft' \<and> ft' \<le> MAX_TIMES"
proof (induction scr arbitrary: ft)
  case Nil
  then show ?case by simp
next
  case (Cons st sts)
  from Cons.prems(1) obtain ft1 where t: "snd (watchDir_turn d p ft st) = Continue ft1"
    and r: "failTimes_after d p ft1 sts = Some ft'"
    by (auto split: flow.splits)
  from watchDir_turn_bounds [OF t Cons.prems(2,3)] Cons.IH [OF r] show ?case by simp
qed

lemma TimeAfter_handleZkNodeEvent_loop: "TimeAfter n \<notin> set (handleZkNodeEvent_loop d c p ch ns)"
  by (induction ns) (auto split: option.splits)

lemma TimeAfter_handleZkNodeEvent: "TimeAfter n \<notin> set (handleZkNodeEvent d c p ch)"
  by (simp add: handleZkNodeEvent_def TimeAfter_handleZkNodeEvent_loop split: option.splits)

lemma watchDir_turn_WatchFail:
  "snd (watchDir_turn d p ft (WatchFail out)) = Continue ft' \<Longrightarrow> ft' = min (ft + 1) MAX_TIMES"
  by (cases out) (auto simp: watchDir_turn_def Let_def bump_failTimes_min)

lemma watchDir_turn_TimeAfter:
  "TimeAfter n \<in> set (fst (watchDir_turn d p ft (WatchFail out))) \<Longrightarrow>
     n = min (ft + 1) MAX_TIMES * REGISTRY_CONN_DELAY d"
  by (cases out)
     (auto simp: watchDir_turn_def Let_def bump_failTimes_min TimeAfter_handleZkNodeEvent)

lemmas eval_defs =
  step_def proceed_def NewWatcher_def watchService_def watchDir_goroutine_def
  watchDir_turn_def handleZkNodeEvent_def handleZkPathEvent_def node_goroutine_def
  watchServiceNode_def watchDir_register_def caller_def IsClosed_def Notify_def
  bump_failTimes_def MAX_TIMES_def Wactch_Event_Channel_Size_def path_Join_def path_Clean_def
  example_deps_def example_client_def example_service_def Let_def

lemma path_Join_examples:
  "path_Join ''/'' ''svc'' = ''/svc''"
  "path_Join ''/dubbo'' ''svc'' = ''/dubbo/svc''"
  "path_Join ''/dubbo/'' ''svc'' = ''/dubbo/svc''"
  "path_Join ''/dubbo/svc'' ''i1'' = ''/dubbo/svc/i1''"
  "path_Join ''/a/./b//c'' ''../d'' = ''/a/b/d''"
  "path_Join [] [] = []"
  by (simp_all add: path_Join_def path_Clean_def)

lemma example_run_closed:
  "exec example_deps (NewWatcher example_deps (example_client [''i1'']) [[CallClose False]])
     (take 4 example_schedule) =
   Some \<lparr>watcher = \<lparr>events = [], w_done = True, pathSet = [], wg = 0, reg_done = False\<rparr>,
         tasks = [[Go (GoWatchDir ''/dubbo'')], [],
                  [Register ''/dubbo/svc'', WgAdd, RecvZk EventNodeChildrenChanged,
                   Send ''/dubbo/svc/i1'' (added (example_service ''/dubbo/svc/i1'')),
                   Go (GoWatchNode ''/dubbo/svc/i1'' (example_service ''/dubbo/svc/i1'')), Park]],
         sent = []\<rparr>"
  by (simp add: example_schedule_def eval_defs added_def)


lemma example_run:
  "exec example_deps (NewWatcher example_deps (example_client [''i1'']) [[CallClose False]])
     example_schedule =
   Some \<lparr>watcher = \<lparr>events = [added (example_service ''/dubbo/svc/i1'')], w_done = True,
                      pathSet = [''/dubbo/svc''], wg = 1, reg_done = False\<rparr>,
         tasks = [[Go (GoWatchDir ''/dubbo'')], [],
                  [Go (GoWatchNode ''/dubbo/svc/i1'' (example_service ''/dubbo/svc/i1'')), Park]],
         sent = [(''/dubbo/svc/i1'', added (example_service ''/dubbo/svc/i1''))]\<rparr>"
  by (simp add: example_schedule_def eval_defs added_def)

lemma example_run2_closed:
  "exec example_deps
     (NewWatcher example_deps (example_client [''i1'']) [[CallRegistryClose, CallClose False]])
     (take 15 example_schedule2) =
   Some \<lparr>watcher = \<lparr>events = [added (example_service ''/dubbo/svc/i1'')], w_done = True,
                      pathSet = [''/dubbo/svc''], wg = 0, reg_done = True\<rparr>,
         tasks = [[Go (GoWatchDir ''/dubbo'')], [], [],
                  [Send ''/dubbo/svc/i1'' (removed (example_service ''/dubbo/svc/i1''))]],
         sent = [(''/dubbo/svc/i1'', added (example_service ''/dubbo/svc/i1''))]\<rparr>"
  by (simp add: example_schedule2_def eval_defs added_def removed_def)

lemma example_run2:
  "exec example_deps
     (NewWatcher example_deps (example_client [''i1'']) [[CallRegistryClose, CallClose False]])
     example_schedule2 =
   Some \<lparr>watcher = \<lparr>events = [added (example_service ''/dubbo/svc/i1''),
                                removed (example_service ''/dubbo/svc/i1'')],
                      w_done = True, pathSet = [''/dubbo/svc''], wg = 0, reg_done = True\<rparr>,
         tasks = [[Go (GoWatchDir ''/dubbo'')], [], [], []],
         sent = [(''/dubbo/svc/i1'', added (example_service ''/dubbo/svc/i1'')),
                 (''/dubbo/svc/i1'', removed (example_service ''/dubbo/svc/i1''))]\<rparr>"
  by (simp add: example_schedule2_def eval_defs added_def removed_def)

lemma example_run3:
  "exec example_deps (NewWatcher example_deps (example_client []) []) example_schedule3 =
   Some \<lparr>watcher = \<lparr>events = [], w_done = False, pathSet = [''/dubbo/svc'', ''/dubbo''],
                      wg = 1, reg_done = False\<rparr>,
         tasks = [[], [WgAdd, Park], [Park], [Register ''/dubbo/svc'', WgAdd, Park]],
         sent = []\<rparr>"
  by (simp add: example_schedule3_def eval_defs)

lemma watchDir_turn_nonroot:
  "zkPath \<noteq> Root d \<Longrightarrow>
     watchDir_turn d zkPath failTimes
       (WatchOk children (ChildEvent EventNodeChildrenChanged evPath c)) =
     (RecvZk EventNodeChildrenChanged
        # handleZkNodeEvent d c evPath (if failTimes = 0 then [] else children),
      Continue 0)"
  by (simp add: watchDir_turn_def)

lemma perform_entered:
  assumes "perform d cfg i s a rest = Some cfg'"
  shows "pathSet (watcher cfg') = pathSet (watcher cfg) @
           (case a of
              Register p \<Rightarrow> if fst (watchDir_register (pathSet (watcher cfg)) p) then [] else [p]
            | _ \<Rightarrow> [])"
proof (cases a)
  case (Go g)
  with assms show ?thesis by (cases g; cases s) auto
next
  case (Register p)
  with assms show ?thesis
    by (auto simp: proceed_def Let_def watchDir_register_def split: if_splits)
qed (use assms in \<open>auto simp: proceed_def Let_def split: if_splits list.splits\<close>)

lemma step_entered:
  assumes "step d cfg x = Some cfg'"
  shows "pathSet (watcher cfg') = pathSet (watcher cfg) @ entered cfg (fst x)"
proof -
  from assms obtain i s a rest where x: "x = (i, s)" and t: "tasks cfg ! i = a # rest"
    and p: "perform d cfg i s a rest = Some cfg'"
    by (rule step_perform)
  from perform_entered [OF p] x t show ?thesis by (cases a) simp_all
qed

lemma exec_loops_entered:
  "exec d cfg sched = Some cfg' \<Longrightarrow>
     pathSet (watcher cfg') = pathSet (watcher cfg) @ loops_entered d cfg sched"
proof (induction sched arbitrary: cfg)
  case Nil
  then show ?case by simp
next
  case (Cons x sched)
  from Cons.prems obtain c1 where s: "step d cfg x = Some c1" and e: "exec d c1 sched = Some cfg'"
    by (auto split: option.splits)
  from step_entered [OF s] Cons.IH [OF e] s show ?case by simp
qed

lemma loops_entered_NewWatcher:
  assumes "exec d (NewWatcher d c callers) sched = Some cfg"
  shows "loops_entered d (NewWatcher d c callers) sched = pathSet (watcher cfg)"
  using exec_loops_entered [OF assms] by (simp add: NewWatcher_def)


section \<open>The claims\<close>

text \<open>
  C1 fails on the code. In the first run above, \<^verbatim>\<open>Close\<close> has returned after four steps
  (goroutine 1 has no action left, \<^verbatim>\<open>w.done\<close> is closed, the wait group counter is 0): the
  goroutine that \<^verbatim>\<open>watchService\<close> started has not yet called \<^verbatim>\<open>w.wg.Add(1)\<close>, so \<^verbatim>\<open>w.wg.Wait()\<close>
  does not wait for it. The goroutine then registers \<^verbatim>\<open>/dubbo/svc\<close>, enters its loop and, on
  a children-changed notification, queues an add event on the relay: its \<^verbatim>\<open>select\<close> reads
  \<^verbatim>\<open>w.reg.done\<close>, not \<^verbatim>\<open>w.done\<close>, so the closed stop channel does not end it. At the end of the
  run the Watcher is stopped, \<^verbatim>\<open>Close\<close> has long returned, the loop is still running and
  the relay holds an event sent after the return. (Lemma \<open>example_run2_closed\<close> and
  \<open>example_run2\<close> show the same for a delete event: the node goroutine sends it after
  \<^verbatim>\<open>watchServiceNode\<close> has already called \<^verbatim>\<open>w.wg.Done()\<close>.)
\<close>

theorem Close_returns_before_loops_exit:
  "exec example_deps (NewWatcher example_deps (example_client [''i1'']) [[CallClose False]])
     (take 4 example_schedule) =
   Some \<lparr>watcher = \<lparr>events = [], w_done = True, pathSet = [], wg = 0, reg_done = False\<rparr>,
         tasks = [[Go (GoWatchDir ''/dubbo'')], [],
                  [Register ''/dubbo/svc'', WgAdd, RecvZk EventNodeChildrenChanged,
                   Send ''/dubbo/svc/i1'' (added (example_service ''/dubbo/svc/i1'')),
                   Go (GoWatchNode ''/dubbo/svc/i1'' (example_service ''/dubbo/svc/i1'')), Park]],
         sent = []\<rparr>
   \<and> exec example_deps (NewWatcher example_deps (example_client [''i1'']) [[CallClose False]])
     example_schedule =
   Some \<lparr>watcher = \<lparr>events = [added (example_service ''/dubbo/svc/i1'')], w_done = True,
                      pathSet = [''/dubbo/svc''], wg = 1, reg_done = False\<rparr>,
         tasks = [[Go (GoWatchDir ''/dubbo'')], [],
                  [Go (GoWatchNode ''/dubbo/svc/i1'' (example_service ''/dubbo/svc/i1'')), Park]],
         sent = [(''/dubbo/svc/i1'', added (example_service ''/dubbo/svc/i1''))]\<rparr>"
  using example_run_closed example_run by (rule conjI)

text \<open>
  C2 fails on the code: the test \<^verbatim>\<open>failTimes == 0\<close> holds exactly when the previous
  notification was handled with no failure since, not after a failure streak. Here the
  loop on the service path fails once, then watches with known children \<^verbatim>\<open>a\<close> and is
  notified when \<^verbatim>\<open>b\<close> has appeared: only \<^verbatim>\<open>b\<close> is sent (the known set was kept). At the next
  notification, with known children \<^verbatim>\<open>a\<close>, \<^verbatim>\<open>b\<close> and \<^verbatim>\<open>c\<close> new, all three are sent (the known
  set was emptied although nothing had failed). See also \<open>watchDir_turn_nonroot\<close>.
\<close>

theorem watchDir_known_children_reset_inverted:
  "sends_of (fst (watchDir_loop example_deps ''/dubbo/svc'' 1
     [WatchFail Timeout,
      WatchOk [''a''] (ChildEvent EventNodeChildrenChanged ''/dubbo/svc''
                         (example_client [''a'', ''b''])),
      WatchOk [''a'', ''b''] (ChildEvent EventNodeChildrenChanged ''/dubbo/svc''
                         (example_client [''a'', ''b'', ''c'']))])) =
   [(''/dubbo/svc/b'', added (example_service ''/dubbo/svc/b'')),
    (''/dubbo/svc/a'', added (example_service ''/dubbo/svc/a'')),
    (''/dubbo/svc/b'', added (example_service ''/dubbo/svc/b'')),
    (''/dubbo/svc/c'', added (example_service ''/dubbo/svc/c''))]"
  by (simp add: eval_defs)

text \<open>
  C3. In every run of the goroutines that starts from \<^verbatim>\<open>NewWatcher\<close>, whatever the
  schedule, the answers of the client and the calls of the callers: a delete event for a
  service at an instance node stands in the history of the relay only after an add event
  for that service at that node. (The goroutine that can send the delete event is started
  by the statement after the send of the add event: \<open>not_owes_handleZkNodeEvent\<close>.)
\<close>

theorem added_before_removed:
  assumes "exec d (NewWatcher d c callers) sched = Some cfg"
    and "j < length (sent cfg)" and "sent cfg ! j = (n, removed sv)"
  shows "\<exists>i. i < j \<and> sent cfg ! i = (n, added sv)"
proof -
  have "inv_order cfg"
    using assms(1) inv_order_NewWatcher step_inv_order
    by (rule exec_invariant [where P = inv_order])
  then have "ordered (sent cfg)" by (simp add: inv_order_def)
  then show ?thesis using assms(2,3) by (rule orderedD)
qed

text \<open>
  The second run above ends with both events of \<^verbatim>\<open>i1\<close> on the relay, the add event first.
\<close>

theorem added_before_removed_witness:
  "exec example_deps
     (NewWatcher example_deps (example_client [''i1'']) [[CallRegistryClose, CallClose False]])
     example_schedule2 =
   Some \<lparr>watcher = \<lparr>events = [added (example_service ''/dubbo/svc/i1''),
                                removed (example_service ''/dubbo/svc/i1'')],
                      w_done = True, pathSet = [''/dubbo/svc''], wg = 0, reg_done = True\<rparr>,
         tasks = [[Go (GoWatchDir ''/dubbo'')], [], [], []],
         sent = [(''/dubbo/svc/i1'', added (example_service ''/dubbo/svc/i1'')),
                 (''/dubbo/svc/i1'', removed (example_service ''/dubbo/svc/i1''))]\<rparr>
   \<and> [(''/dubbo/svc/i1'', added (example_service ''/dubbo/svc/i1'')),
       (''/dubbo/svc/i1'', removed (example_service ''/dubbo/svc/i1''))] ! 1
       = (''/dubbo/svc/i1'', removed (example_service ''/dubbo/svc/i1''))
   \<and> (\<exists>i. i < 1 \<and> [(''/dubbo/svc/i1'', added (example_service ''/dubbo/svc/i1'')),
       (''/dubbo/svc/i1'', removed (example_service ''/dubbo/svc/i1''))] ! i
       = (''/dubbo/svc/i1'', added (example_service ''/dubbo/svc/i1'')))"
proof -
  note r = example_run2
  have "\<exists>i. i < 1 \<and> sent \<lparr>watcher = \<lparr>events = [added (example_service ''/dubbo/svc/i1''),
                                removed (example_service ''/dubbo/svc/i1'')],
                      w_done = True, pathSet = [''/dubbo/svc''], wg = 0, reg_done = True\<rparr>,
         tasks = [[Go (GoWatchDir ''/dubbo'')], [], [], []],
         sent = [(''/dubbo/svc/i1'', added (example_service ''/dubbo/svc/i1'')),
                 (''/dubbo/svc/i1'', removed (example_service ''/dubbo/svc/i1''))]\<rparr> ! i
     = (''/dubbo/svc/i1'', added (example_service ''/dubbo/svc/i1''))"
    by (rule added_before_removed [OF r]) simp_all
  then show ?thesis using r by simp
qed

text \<open>
  C4, as amended. \<^verbatim>\<open>Notify\<close> blocks exactly while the Watcher is not stopped and the relay
  is empty. Once the Watcher is stopped, the "watcher stopped" error is always one of the
  results the call can return, and it is the only one when the relay is empty. Every
  result is either that error (and then the Watcher is stopped) or the oldest queued
  event, which is taken off the relay. Whenever an event is queued, stopped or not, the
  oldest queued event is one of the results the call can return; on a stopped Watcher
  with a queued event the call has exactly these two results, the error and the event.
\<close>

theorem Notify_cases:
  "(Notify w = [] \<longleftrightarrow> \<not> IsClosed w \<and> events w = [])
   \<and> (IsClosed w \<longrightarrow> ((None, Some watcher_stopped), w) \<in> set (Notify w))
   \<and> (IsClosed w \<and> events w = [] \<longrightarrow> Notify w = [((None, Some watcher_stopped), w)])
   \<and> (\<forall>r w'. (r, w') \<in> set (Notify w) \<longrightarrow>
         r = (None, Some watcher_stopped) \<and> w' = w \<and> IsClosed w
         \<or> (\<exists>e es. events w = e # es \<and> r = (res e, err e) \<and> w' = w\<lparr>events := es\<rparr>))
   \<and> (\<forall>e es. events w = e # es \<longrightarrow>
         ((res e, err e), w\<lparr>events := es\<rparr>) \<in> set (Notify w))
   \<and> (\<forall>e es. IsClosed w \<and> events w = e # es \<longrightarrow>
         Notify w = [((None, Some watcher_stopped), w), ((res e, err e), w\<lparr>events := es\<rparr>)])"
proof (intro conjI allI impI)
  show "Notify w = [] \<longleftrightarrow> \<not> IsClosed w \<and> events w = []"
    by (auto simp: Notify_def IsClosed_def split: list.splits)
next
  assume "IsClosed w"
  then show "((None, Some watcher_stopped), w) \<in> set (Notify w)"
    by (auto simp: Notify_def IsClosed_def split: if_splits)
next
  assume "IsClosed w \<and> events w = []"
  then show "Notify w = [((None, Some watcher_stopped), w)]"
    by (auto simp: Notify_def IsClosed_def split: if_splits)
next
  fix r w' assume a: "(r, w') \<in> set (Notify w)"
  show "r = (None, Some watcher_stopped) \<and> w' = w \<and> IsClosed w
         \<or> (\<exists>e es. events w = e # es \<and> r = (res e, err e) \<and> w' = w\<lparr>events := es\<rparr>)"
  proof (cases "events w")
    case Nil
    with a show ?thesis by (auto simp: Notify_def IsClosed_def split: if_splits)
  next
    case (Cons e es)
    with a show ?thesis by (auto simp: Notify_def IsClosed_def split: if_splits)
  qed
next
  fix e es assume "events w = e # es"
  then show "((res e, err e), w\<lparr>events := es\<rparr>) \<in> set (Notify w)"
    by (simp add: Notify_def)
next
  fix e es assume "IsClosed w \<and> events w = e # es"
  then show "Notify w = [((None, Some watcher_stopped), w), ((res e, err e), w\<lparr>events := es\<rparr>)]"
    by (auto simp: Notify_def IsClosed_def split: if_splits)
qed

text \<open>
  A stopped Watcher with an empty relay: the call returns the error and nothing else.
  A stopped Watcher with one add event queued: the call can return the error, and it can
  return the event.
\<close>

theorem Notify_cases_witness:
  "IsClosed \<lparr>events = [], w_done = True, pathSet = [], wg = 0, reg_done = False\<rparr>
   \<and> events \<lparr>events = [], w_done = True, pathSet = [], wg = 0, reg_done = False\<rparr> = []
   \<and> Notify \<lparr>events = [], w_done = True, pathSet = [], wg = 0, reg_done = False\<rparr>
       = [((None, Some watcher_stopped),
           \<lparr>events = [], w_done = True, pathSet = [], wg = 0, reg_done = False\<rparr>)]
   \<and> IsClosed \<lparr>events = [added (example_service ''/dubbo/svc/i1'')], w_done = True,
                pathSet = [], wg = 0, reg_done = False\<rparr>
   \<and> Notify \<lparr>events = [added (example_service ''/dubbo/svc/i1'')], w_done = True,
              pathSet = [], wg = 0, reg_done = False\<rparr>
       = [((None, Some watcher_stopped),
           \<lparr>events = [added (example_service ''/dubbo/svc/i1'')], w_done = True,
              pathSet = [], wg = 0, reg_done = False\<rparr>),
          ((Some \<lparr>Action = ServiceURLAdd, Service = example_service ''/dubbo/svc/i1''\<rparr>, None),
           \<lparr>events = [], w_done = True, pathSet = [], wg = 0, reg_done = False\<rparr>)]"
proof -
  let ?w = "\<lparr>events = [], w_done = True, pathSet = [], wg = 0, reg_done = False\<rparr>"
  let ?e = "added (example_service ''/dubbo/svc/i1'')"
  let ?v = "\<lparr>events = [?e], w_done = True, pathSet = [], wg = 0, reg_done = False\<rparr>"
  have c: "IsClosed ?w" by (simp add: IsClosed_def)
  have e: "events ?w = []" by simp
  have "IsClosed ?w \<and> events ?w = [] \<longrightarrow> Notify ?w = [((None, Some watcher_stopped), ?w)]"
    by (rule conjunct1 [OF conjunct2 [OF conjunct2 [OF Notify_cases [of ?w]]]])
  with c e have n: "Notify ?w = [((None, Some watcher_stopped), ?w)]" by blast
  have c': "IsClosed ?v" by (simp add: IsClosed_def)
  have e': "events ?v = ?e # []" by simp
  have "\<forall>e es. IsClosed ?v \<and> events ?v = e # es \<longrightarrow>
         Notify ?v = [((None, Some watcher_stopped), ?v), ((res e, err e), ?v\<lparr>events := es\<rparr>)]"
    by (rule conjunct2 [OF conjunct2 [OF conjunct2 [OF conjunct2 [OF conjunct2
          [OF Notify_cases [of ?v]]]]]])
  then have "IsClosed ?v \<and> events ?v = ?e # [] \<longrightarrow>
         Notify ?v = [((None, Some watcher_stopped), ?v), ((res ?e, err ?e), ?v\<lparr>events := []\<rparr>)]"
    by (elim allE)
  with c' e' have n': "Notify ?v = [((None, Some watcher_stopped), ?v), ((res ?e, err ?e), ?v\<lparr>events := []\<rparr>)]"
    by blast
  have r: "res ?e = Some \<lparr>Action = ServiceURLAdd, Service = example_service ''/dubbo/svc/i1''\<rparr>"
    and r': "err ?e = None" by (simp_all add: added_def)
  have u: "?v\<lparr>events := []\<rparr> = ?w" by simp
  from n' r r' u have n'': "Notify ?v = [((None, Some watcher_stopped), ?v),
      ((Some \<lparr>Action = ServiceURLAdd, Service = example_service ''/dubbo/svc/i1''\<rparr>, None), ?w)]"
    by (simp only:)
  from c e n c' n'' show ?thesis by (intro conjI)
qed

text \<open>
  C4 as stated fails: with the Watcher stopped and an add event still queued, the event
  is among the results \<^verbatim>\<open>Notify\<close> can return.
\<close>

theorem Notify_stopped_counterexample:
  "((Some \<lparr>Action = ServiceURLAdd, Service = \<lparr>Attr = ''a'', Nodes = ''n''\<rparr>\<rparr>, None),
    \<lparr>events = [], w_done = True, pathSet = [], wg = 0, reg_done = False\<rparr>)
   \<in> set (Notify \<lparr>events = [added \<lparr>Attr = ''a'', Nodes = ''n''\<rparr>], w_done = True,
                    pathSet = [], wg = 0, reg_done = False\<rparr>)"
  by (simp add: Notify_def added_def)

text \<open>
  C5, as amended. \<^verbatim>\<open>watchServiceNode\<close> skips every notification that is not a deletion,
  \<^verbatim>\<open>EventNotWatching\<close> among them, and goes round its loop again without sending
  anything. At the first turn that is not such a notification it returns: true on
  \<^verbatim>\<open>EventNodeDeleted\<close>, false when \<^verbatim>\<open>ExistW\<close> fails or the stop channel is taken. It has not
  returned while there is no such turn. The goroutine around it sends exactly one delete
  event for its service when the result is true, and nothing otherwise.
\<close>

theorem watchServiceNode_returns:
  "snd (watchServiceNode scr) =
     (case dropWhile rearms scr of
        [] \<Rightarrow> None
      | ExistWError # _ \<Rightarrow> Some False
      | Notified ty # _ \<Rightarrow> Some True
      | Stopped # _ \<Rightarrow> Some False)
   \<and> sends_of (node_goroutine node service scr) =
       (if snd (watchServiceNode scr) = Some True then [(node, removed service)] else [])"
proof
  show "snd (watchServiceNode scr) =
     (case dropWhile rearms scr of
        [] \<Rightarrow> None
      | ExistWError # _ \<Rightarrow> Some False
      | Notified ty # _ \<Rightarrow> Some True
      | Stopped # _ \<Rightarrow> Some False)"
    by (simp only: watchServiceNode_snd watchServiceNode_loop_result)
next
  obtain as r where w: "watchServiceNode scr = (as, r)" by (cases "watchServiceNode scr")
  with watchServiceNode_sends [of scr] have s: "sends_of as = []" by simp
  show "sends_of (node_goroutine node service scr) =
       (if snd (watchServiceNode scr) = Some True then [(node, removed service)] else [])"
    using w s by (cases r) (auto simp: node_goroutine_def sends_of_append)
qed

text \<open>
  C5 as stated fails: after an \<^verbatim>\<open>EventNotWatching\<close> notification the function does not
  return false; it watches again, and here it returns true on the deletion that follows.
\<close>

theorem watchServiceNode_NotWatching_counterexample:
  "snd (watchServiceNode [Notified EventNotWatching, Notified EventNodeDeleted]) = Some True"
  by (simp add: watchServiceNode_def)

text \<open>
  C6. In every run from \<^verbatim>\<open>NewWatcher\<close>: the paths for which a goroutine went on into the
  loop of \<^verbatim>\<open>watchDir\<close>, in the order of the run, are exactly \<^verbatim>\<open>w.pathSet\<close>, and no path
  stands in it twice: no two loops are ever entered for one path. Whatever happens later,
  \<^verbatim>\<open>w.pathSet\<close> only grows at its end, so no path is ever removed. A goroutine at the locked
  head of \<^verbatim>\<open>watchDir\<close> either finds its path registered and returns at once, changing
  nothing and starting nothing, or appends the path and goes on into the loop; the check
  and the append are one step, as they are under the lock.
\<close>

theorem one_loop_per_path:
  assumes "exec d (NewWatcher d c callers) sched = Some cfg"
  shows "loops_entered d (NewWatcher d c callers) sched = pathSet (watcher cfg)
     \<and> distinct (pathSet (watcher cfg))
     \<and> (\<forall>sched' cfg'. exec d cfg sched' = Some cfg' \<longrightarrow>
           (\<exists>ps. pathSet (watcher cfg') = pathSet (watcher cfg) @ ps))
     \<and> (\<forall>i s p rest cfg'.
           i < length (tasks cfg) \<and> tasks cfg ! i = Register p # rest
           \<and> step d cfg (i, s) = Some cfg' \<longrightarrow>
           (if p \<in> set (pathSet (watcher cfg))
            then cfg' = cfg\<lparr>tasks := (tasks cfg)[i := []]\<rparr>
            else cfg' = cfg\<lparr>watcher := (watcher cfg)\<lparr>pathSet := pathSet (watcher cfg) @ [p]\<rparr>,
                            tasks := (tasks cfg)[i := rest]\<rparr>))"
proof (intro conjI allI impI)
  show "loops_entered d (NewWatcher d c callers) sched = pathSet (watcher cfg)"
    using assms by (rule loops_entered_NewWatcher)
next
  show "distinct (pathSet (watcher cfg))"
    using assms distinct_NewWatcher step_distinct
    by (rule exec_invariant [where P = "\<lambda>c. distinct (pathSet (watcher c))"])
next
  fix sched' cfg' assume "exec d cfg sched' = Some cfg'"
  then show "\<exists>ps. pathSet (watcher cfg') = pathSet (watcher cfg) @ ps" by (rule exec_pathSet)
next
  fix i s p rest cfg'
  assume "i < length (tasks cfg) \<and> tasks cfg ! i = Register p # rest
           \<and> step d cfg (i, s) = Some cfg'"
  then show "if p \<in> set (pathSet (watcher cfg))
            then cfg' = cfg\<lparr>tasks := (tasks cfg)[i := []]\<rparr>
            else cfg' = cfg\<lparr>watcher := (watcher cfg)\<lparr>pathSet := pathSet (watcher cfg) @ [p]\<rparr>,
                            tasks := (tasks cfg)[i := rest]\<rparr>"
    using step_Register by blast
qed

text \<open>
  The third run above ends with two goroutines on \<^verbatim>\<open>/dubbo/svc\<close>, one in its loop and one at
  the head of \<^verbatim>\<open>watchDir\<close>; the step of the second one returns without touching the Watcher.
\<close>

theorem one_loop_per_path_witness:
  "exec example_deps (NewWatcher example_deps (example_client []) []) example_schedule3 =
   Some \<lparr>watcher = \<lparr>events = [], w_done = False, pathSet = [''/dubbo/svc'', ''/dubbo''],
                      wg = 1, reg_done = False\<rparr>,
         tasks = [[], [WgAdd, Park], [Park], [Register ''/dubbo/svc'', WgAdd, Park]],
         sent = []\<rparr>
   \<and> loops_entered example_deps (NewWatcher example_deps (example_client []) [])
        example_schedule3 = [''/dubbo/svc'', ''/dubbo'']
   \<and> distinct [''/dubbo/svc'', ''/dubbo'']
   \<and> step example_deps
        \<lparr>watcher = \<lparr>events = [], w_done = False, pathSet = [''/dubbo/svc'', ''/dubbo''],
                      wg = 1, reg_done = False\<rparr>,
         tasks = [[], [WgAdd, Park], [Park], [Register ''/dubbo/svc'', WgAdd, Park]],
         sent = []\<rparr> (3, NoScript) =
      Some \<lparr>watcher = \<lparr>events = [], w_done = False, pathSet = [''/dubbo/svc'', ''/dubbo''],
                      wg = 1, reg_done = False\<rparr>,
         tasks = [[], [WgAdd, Park], [Park], []],
         sent = []\<rparr>"
proof -
  let ?cfg = "\<lparr>watcher = \<lparr>events = [], w_done = False, pathSet = [''/dubbo/svc'', ''/dubbo''],
                      wg = 1, reg_done = False\<rparr>,
         tasks = [[], [WgAdd, Park], [Park], [Register ''/dubbo/svc'', WgAdd, Park]],
         sent = []\<rparr>"
  note t = one_loop_per_path [OF example_run3]
  from t have "loops_entered example_deps (NewWatcher example_deps (example_client []) [])
        example_schedule3 = pathSet (watcher ?cfg)"
    by (rule conjunct1)
  then have l: "loops_entered example_deps (NewWatcher example_deps (example_client []) [])
        example_schedule3 = [''/dubbo/svc'', ''/dubbo'']" by simp
  from t have "distinct (pathSet (watcher ?cfg))"
    by (rule conjunct1 [OF conjunct2])
  then have d: "distinct [''/dubbo/svc'', ''/dubbo'']" by simp
  have s: "step example_deps ?cfg (3, NoScript) =
      Some \<lparr>watcher = \<lparr>events = [], w_done = False, pathSet = [''/dubbo/svc'', ''/dubbo''],
                      wg = 1, reg_done = False\<rparr>,
         tasks = [[], [WgAdd, Park], [Park], []],
         sent = []\<rparr>"
    by (simp add: eval_defs)
  from example_run3 l d s show ?thesis by (intro conjI)
qed

text \<open>
  C7. When the lookup of the root's children fails at startup, \<^verbatim>\<open>watchService\<close> sends
  nothing on the relay and does what it does for a root without children: it starts the
  loop on the root and nothing else.
\<close>

theorem watchService_lookup_fails:
  "Root d \<noteq> [] \<Longrightarrow> GetChildren c (Root d) = None \<Longrightarrow>
     watchService d c = [Go (GoWatchDir (Root d))]
     \<and> watchService d c = watchService d (c\<lparr>GetChildren := (GetChildren c)(Root d := Some [])\<rparr>)
     \<and> sends_of (watchService d c) = []"
  by (simp add: watchService_def)

text \<open>
  The root \<^verbatim>\<open>/dubbo\<close> with a client whose every call fails.
\<close>

theorem watchService_lookup_fails_witness:
  "Root example_deps \<noteq> [] \<and> GetChildren failing_client (Root example_deps) = None
   \<and> watchService example_deps failing_client = [Go (GoWatchDir ''/dubbo'')]
   \<and> sends_of (watchService example_deps failing_client) = []"
proof -
  have r: "Root example_deps \<noteq> []" by (simp add: example_deps_def)
  have g: "GetChildren failing_client (Root example_deps) = None"
    by (simp add: failing_client_def)
  show ?thesis
    using watchService_lookup_fails [OF r g] r g by (simp add: example_deps_def)
qed




text \<open>
  C9, as amended. At every turn of the loop the failure counter is between 0 and
  \<^verbatim>\<open>MAX_TIMES\<close>. A failed \<^verbatim>\<open>GetChildrenW\<close> adds one to it, up to \<^verbatim>\<open>MAX_TIMES\<close>, so it is at least 1
  after a failure; the timer that follows waits the counter times
  \<^verbatim>\<open>REGISTRY_CONN_DELAY\<close> seconds, at most \<^verbatim>\<open>MAX_TIMES\<close> times that delay. On the reconnect
  signal the loop runs \<^verbatim>\<open>handleZkNodeEvent\<close> at once with an empty known set and goes round
  again; the counter keeps its incremented value.
\<close>

theorem failTimes_capped:
  assumes "failTimes_after d zkPath 1 scr = Some failTimes"
  shows "0 \<le> failTimes \<and> failTimes \<le> MAX_TIMES
     \<and> (\<forall>out failTimes'.
           snd (watchDir_turn d zkPath failTimes (WatchFail out)) = Continue failTimes' \<longrightarrow>
           failTimes' = min (failTimes + 1) MAX_TIMES \<and> 1 \<le> failTimes')
     \<and> (\<forall>out n.
           TimeAfter n \<in> set (fst (watchDir_turn d zkPath failTimes (WatchFail out))) \<longrightarrow>
           n = min (failTimes + 1) MAX_TIMES * REGISTRY_CONN_DELAY d
           \<and> (0 \<le> REGISTRY_CONN_DELAY d \<longrightarrow> n \<le> MAX_TIMES * REGISTRY_CONN_DELAY d))
     \<and> (\<forall>c. watchDir_turn d zkPath failTimes (WatchFail (Reconnect c)) =
              ([RegisterEvent zkPath, RecvReconnect, UnregisterEvent zkPath]
                 @ handleZkNodeEvent d c zkPath [],
               Continue (min (failTimes + 1) MAX_TIMES)))"
proof -
  have b: "0 \<le> failTimes \<and> failTimes \<le> MAX_TIMES"
    using failTimes_after_bounds [OF assms] by (simp add: MAX_TIMES_def)
  have m: "1 \<le> min (failTimes + 1) MAX_TIMES" using b by (simp add: MAX_TIMES_def)
  have t: "n \<le> MAX_TIMES * REGISTRY_CONN_DELAY d"
    if "n = min (failTimes + 1) MAX_TIMES * REGISTRY_CONN_DELAY d" "0 \<le> REGISTRY_CONN_DELAY d" for n
    using that by (simp add: mult_right_mono)
  show ?thesis
  proof (intro conjI allI impI)
    show "0 \<le> failTimes" "failTimes \<le> MAX_TIMES" using b by simp_all
  next
    fix out failTimes'
    assume "snd (watchDir_turn d zkPath failTimes (WatchFail out)) = Continue failTimes'"
    then have e: "failTimes' = min (failTimes + 1) MAX_TIMES" by (rule watchDir_turn_WatchFail)
    then show "failTimes' = min (failTimes + 1) MAX_TIMES" .
    from e m show "1 \<le> failTimes'" by simp
  next
    fix out n
    assume "TimeAfter n \<in> set (fst (watchDir_turn d zkPath failTimes (WatchFail out)))"
    then have e: "n = min (failTimes + 1) MAX_TIMES * REGISTRY_CONN_DELAY d"
      by (rule watchDir_turn_TimeAfter)
    then show "n = min (failTimes + 1) MAX_TIMES * REGISTRY_CONN_DELAY d" .
    assume "0 \<le> REGISTRY_CONN_DELAY d"
    with e show "n \<le> MAX_TIMES * REGISTRY_CONN_DELAY d" by (rule t)
  next
    fix c
    show "watchDir_turn d zkPath failTimes (WatchFail (Reconnect c)) =
              ([RegisterEvent zkPath, RecvReconnect, UnregisterEvent zkPath]
                 @ handleZkNodeEvent d c zkPath [],
               Continue (min (failTimes + 1) MAX_TIMES))"
      by (simp add: watchDir_turn_def Let_def bump_failTimes_min)
  qed
qed

text \<open>
  After one failure that timed out the counter is 2; a reconnect signal then leaves 3.
\<close>

theorem failTimes_capped_witness:
  "failTimes_after example_deps ''/dubbo/svc'' 1 [WatchFail Timeout] = Some 2
   \<and> (0::int) \<le> 2 \<and> 2 \<le> MAX_TIMES
   \<and> watchDir_turn example_deps ''/dubbo/svc'' 2 (WatchFail (Reconnect (example_client []))) =
       ([RegisterEvent ''/dubbo/svc'', RecvReconnect, UnregisterEvent ''/dubbo/svc''], Continue 3)"
proof -
  have f: "failTimes_after example_deps ''/dubbo/svc'' 1 [WatchFail Timeout] = Some 2"
    by (simp add: eval_defs)
  from failTimes_capped [OF f] have b: "(0::int) \<le> 2 \<and> 2 \<le> MAX_TIMES"
    and r: "watchDir_turn example_deps ''/dubbo/svc'' 2 (WatchFail (Reconnect (example_client []))) =
              ([RegisterEvent ''/dubbo/svc'', RecvReconnect, UnregisterEvent ''/dubbo/svc'']
                 @ handleZkNodeEvent example_deps (example_client []) ''/dubbo/svc'' [],
               Continue (min (2 + 1) MAX_TIMES))"
    by blast+
  have h: "handleZkNodeEvent example_deps (example_client []) ''/dubbo/svc'' [] = []"
    by (simp add: eval_defs)
  from f b r h show ?thesis by (simp add: MAX_TIMES_def)
qed

text \<open>
  C9 as stated fails: after a reconnect signal the counter is 2, not 0, and the next
  successful notification is diffed against the known children: the reconnect sends the
  add event for \<^verbatim>\<open>a\<close>, and the notification that follows sends \<^verbatim>\<open>b\<close> only.
\<close>

theorem reconnect_keeps_failTimes_counterexample:
  "snd (watchDir_turn example_deps ''/dubbo/svc'' 1 (WatchFail (Reconnect (example_client [''a''])))) =
     Continue 2
   \<and> sends_of (fst (watchDir_loop example_deps ''/dubbo/svc'' 1
        [WatchFail (Reconnect (example_client [''a''])),
         WatchOk [''a''] (ChildEvent EventNodeChildrenChanged ''/dubbo/svc''
                            (example_client [''a'', ''b'']))])) =
     [(''/dubbo/svc/a'', added (example_service ''/dubbo/svc/a'')),
      (''/dubbo/svc/b'', added (example_service ''/dubbo/svc/b''))]"
  by (simp add: eval_defs)

text \<open>
  C10. In every run from \<^verbatim>\<open>NewWatcher\<close>, every event in the relay and every event ever
  sent on it has a result and a nil error. So each result \<^verbatim>\<open>Notify\<close> can return is either
  no result with the "watcher stopped" error, or a result with a nil error.
\<close>

theorem relay_events_carry_nil_error:
  assumes "exec d (NewWatcher d c callers) sched = Some cfg"
  shows "list_all (\<lambda>e. err e = None \<and> res e \<noteq> None) (events (watcher cfg))
     \<and> list_all nil_err (sent cfg)
     \<and> list_all (\<lambda>x. fst x = (None, Some watcher_stopped)
                      \<or> (fst (fst x) \<noteq> None \<and> snd (fst x) = None))
          (Notify (watcher cfg))"
proof -
  have inv: "inv_err cfg"
    using assms inv_err_NewWatcher step_inv_err by (rule exec_invariant [where P = inv_err])
  then have e: "list_all (\<lambda>e. err e = None \<and> res e \<noteq> None) (events (watcher cfg))"
    and s: "list_all nil_err (sent cfg)"
    by (simp_all add: inv_err_def)
  from e have "list_all (\<lambda>x. fst x = (None, Some watcher_stopped)
                      \<or> (fst (fst x) \<noteq> None \<and> snd (fst x) = None))
          (Notify (watcher cfg))"
    by (cases "events (watcher cfg)") (simp_all add: Notify_def)
  with e s show ?thesis by simp
qed

text \<open>
  The first run above ends with one add event in the relay.
\<close>

theorem relay_events_carry_nil_error_witness:
  "exec example_deps (NewWatcher example_deps (example_client [''i1'']) [[CallClose False]])
     example_schedule =
   Some \<lparr>watcher = \<lparr>events = [added (example_service ''/dubbo/svc/i1'')], w_done = True,
                      pathSet = [''/dubbo/svc''], wg = 1, reg_done = False\<rparr>,
         tasks = [[Go (GoWatchDir ''/dubbo'')], [],
                  [Go (GoWatchNode ''/dubbo/svc/i1'' (example_service ''/dubbo/svc/i1'')), Park]],
         sent = [(''/dubbo/svc/i1'', added (example_service ''/dubbo/svc/i1''))]\<rparr>
   \<and> list_all (\<lambda>e. err e = None \<and> res e \<noteq> None) [added (example_service ''/dubbo/svc/i1'')]
   \<and> list_all nil_err [(''/dubbo/svc/i1'', added (example_service ''/dubbo/svc/i1''))]"
  using relay_events_carry_nil_error [OF example_run] example_run by simp

end
